theory Spec2Isabelle
  imports Main "HOL-Library.Word" "HOL-Library.Signed_Division"
begin

section \<open>The reorder buffer of the flow tester\<close>

text \<open>
  A shallow embedding of \<^verbatim>\<open>src/flow-tester/ReorderBuffer.h\<close> and
  \<^verbatim>\<open>src/flow-tester/ReorderBuffer.cpp\<close>.

  \<^item> \<^verbatim>\<open>uint64_t\<close> is \<open>64 word\<close> and \<^verbatim>\<open>uint8_t\<close> is \<open>8 word\<close>: their
    arithmetic wraps around, as the slot counters and the sequence numbers of the source do.
  \<^item> The signed types (\<^verbatim>\<open>int\<close>, \<^verbatim>\<open>int64_t\<close>) are \<open>int\<close>. Where a wider value is stored
    into a narrower signed variable (\<^verbatim>\<open>int distance = sn - highest_possible_sn()\<close>,
    \<^verbatim>\<open>ret = discontinuity\<close>, \<^verbatim>\<open>int ret = ... % m_buffer_len\<close>) the conversion is
    written out with \<open>to_int32\<close>. The two signed operations that can leave their type
    wrap around, as the compiled code does: \<^verbatim>\<open>std::abs(discontinuity)\<close> on
    \<^verbatim>\<open>int64_t\<close> (\<open>abs_int64\<close>: the smallest value is its own absolute value) and the
    \<^verbatim>\<open>int\<close> sum \<^verbatim>\<open>current_burst + patchup_burst\<close> of \<^verbatim>\<open>spill\<close>.
  \<^item> \<^verbatim>\<open>%\<close> on \<^verbatim>\<open>int\<close> truncates towards zero: \<open>smod\<close>.
  \<^item> An \<^verbatim>\<open>int *\<close> out-parameter is an \<open>int option\<close>: \<open>None\<close> is \<^verbatim>\<open>nullptr\<close>,
    \<open>Some v\<close> a pointer to a variable that holds \<open>v\<close>; the function returns what the
    variable holds afterwards.
  \<^item> \<^verbatim>\<open>assert\<close> aborts: a function that asserts returns an \<open>option\<close>, and \<open>None\<close> is
    the failed assertion.
  \<^item> \<^verbatim>\<open>std::map<int, ErrorInterval *>\<close> is a map from ports to records; a missing key and
    a null pointer are both \<open>None\<close> (the source treats them alike).
\<close>

type_synonym u64 = "64 word"
type_synonym u8 = "8 word"

definition to_int32 :: "int \<Rightarrow> int" where
  "to_int32 i = sint (word_of_int i :: 32 word)"

text \<open>
  \<^verbatim>\<open>std::abs\<close> on \<^verbatim>\<open>int64_t\<close>: the negation wraps around, so the absolute value of
  \<open>- 2\<^sup>6\<^sup>3\<close> is \<open>- 2\<^sup>6\<^sup>3\<close>.
\<close>

definition abs_int64 :: "int \<Rightarrow> int" where
  "abs_int64 d = sint (word_of_int \<bar>d\<bar> :: 64 word)"

record ErrorInterval =
  last_known_sn :: u64
  burst_count :: int
  reverses :: int
  duplicates :: int
  longest_burst :: int
  seq_breaks :: int

text \<open>
  The members of the class. \<open>good_departures\<close> is a ghost field, not a member of the
  class: it counts the executions of the \<^verbatim>\<open>!dropped\<close> branch of the loop of
  \<^verbatim>\<open>spill\<close>, that is, the slots with a counter of at least 1 that spill removed. No
  function reads it.
\<close>

record ReorderBuffer =
  m_buffer :: "u8 list"
  m_buffer_len :: int
  m_tail_idx :: int
  m_head_idx :: int
  m_tail_sn :: u64
  m_last_spilled_good_sn :: u64
  m_drops :: u64
  m_dups :: u64
  m_port_seq_map :: "int \<rightharpoonup> ErrorInterval"
  m_smallest_received_sn :: u64
  m_largest_received_sn :: u64
  good_departures :: nat

text \<open>The constructor: \<^verbatim>\<open>new uint8_t[m_buffer_len]()\<close> is zero-initialised.\<close>

definition new_ReorderBuffer :: "int \<Rightarrow> ReorderBuffer" where
  "new_ReorderBuffer len =
     \<lparr> m_buffer = replicate (nat len) 0,
       m_buffer_len = len,
       m_tail_idx = 0,
       m_head_idx = 0,
       m_tail_sn = 0,
       m_last_spilled_good_sn = 0,
       m_drops = 0,
       m_dups = 0,
       m_port_seq_map = Map.empty,
       m_smallest_received_sn = 0,
       m_largest_received_sn = 0,
       good_departures = 0 \<rparr>"

definition drops :: "ReorderBuffer \<Rightarrow> u64" where
  "drops s = m_drops s"

definition duplicates_rb :: "ReorderBuffer \<Rightarrow> u64" where
  "duplicates_rb s = m_dups s"

definition stream_length_in_packets :: "ReorderBuffer \<Rightarrow> u64" where
  "stream_length_in_packets s = 1 + m_largest_received_sn s - m_smallest_received_sn s"

definition occupancy :: "ReorderBuffer \<Rightarrow> int" where
  "occupancy s =
     (if m_tail_sn s = 0 then 0
      else let diff = m_head_idx s - m_tail_idx s;
               ret = 1 + (diff smod m_buffer_len s)
           in if diff < 0 then m_buffer_len s + diff else ret)"

definition lowest_possible_sn :: "ReorderBuffer \<Rightarrow> u64" where
  "lowest_possible_sn s =
     (let diff = (word_of_int (m_buffer_len s - occupancy s) :: u64)
      in if m_tail_sn s > diff then m_tail_sn s - diff else 0)"

definition highest_possible_sn :: "ReorderBuffer \<Rightarrow> u64" where
  "highest_possible_sn s = m_tail_sn s + word_of_int (m_buffer_len s) - 1"

text \<open>
  \<^verbatim>\<open>(m_tail_idx + (sn - m_tail_sn)) % m_buffer_len\<close> is computed in \<^verbatim>\<open>uint64_t\<close> (the
  \<^verbatim>\<open>int\<close> operands are converted), then stored into an \<^verbatim>\<open>int\<close>.
\<close>

definition idx_for :: "ReorderBuffer \<Rightarrow> u64 \<Rightarrow> int" where
  "idx_for s sn =
     to_int32 (uint ((word_of_int (m_tail_idx s) + (sn - m_tail_sn s)) mod
                     (word_of_int (m_buffer_len s) :: u64)))"

definition mark :: "u64 \<Rightarrow> ReorderBuffer \<Rightarrow> ReorderBuffer" where
  "mark sn s =
     (let largest_sn = m_tail_sn s + word_of_int (occupancy s) - 1;
          idx = idx_for s sn;
          s1 = s\<lparr>m_buffer := (m_buffer s)[nat idx := m_buffer s ! nat idx + 1]\<rparr>
      in if sn > largest_sn then s1\<lparr>m_head_idx := idx\<rparr> else s1)"

text \<open>
  \<^verbatim>\<open>slot_sn\<close>: the sequence number a slot stands for, 0 when the slot is beyond the
  occupied part. The assertions on the index are the \<open>None\<close> branch.
\<close>

definition slot_sn :: "ReorderBuffer \<Rightarrow> int \<Rightarrow> u64 option" where
  "slot_sn s idx =
     (if 0 \<le> idx \<and> idx < m_buffer_len s then
        let diff = idx - m_tail_idx s;
            sn0 = m_tail_sn s + word_of_int ((idx - m_tail_idx s) smod m_buffer_len s);
            sn = (if diff < 0 then m_tail_sn s + word_of_int diff + word_of_int (m_buffer_len s)
                  else sn0)
        in Some (if sn > m_tail_sn s + word_of_int (occupancy s) then 0 else sn)
      else None)"

subsection \<open>The continuity tracker\<close>

text \<open>
  \<^verbatim>\<open>int64_t discontinuity = flow_sn - expected_sn\<close>: the difference of two
  \<^verbatim>\<open>uint64_t\<close>, read as a signed 64-bit value.
\<close>

definition discontinuity_of :: "ErrorInterval \<Rightarrow> u64 \<Rightarrow> int" where
  "discontinuity_of interval flow_sn = sint (flow_sn - (last_known_sn interval + 1))"

definition check_for_burst_error ::
  "u64 \<Rightarrow> int \<Rightarrow> int option \<Rightarrow> ReorderBuffer \<Rightarrow> int \<times> int option \<times> ReorderBuffer" where
  "check_for_burst_error flow_sn port burst_count_p s =
     (case m_port_seq_map s port of
        None \<Rightarrow>
          (0, burst_count_p,
           s\<lparr>m_port_seq_map := (m_port_seq_map s)(port \<mapsto>
               \<lparr>last_known_sn = flow_sn, burst_count = 0, reverses = 0, duplicates = 0,
                longest_burst = 0, seq_breaks = 0\<rparr>)\<rparr>)
      | Some interval \<Rightarrow>
          let discontinuity = discontinuity_of interval flow_sn;
              iv1 = interval\<lparr>last_known_sn := flow_sn\<rparr>;
              iv2 = (if abs_int64 discontinuity > 2 then iv1\<lparr>seq_breaks := seq_breaks iv1 + 1\<rparr>
                     else iv1)
          in if discontinuity < - 1 then
               (0, burst_count_p,
                s\<lparr>m_port_seq_map := (m_port_seq_map s)(port \<mapsto>
                    iv2\<lparr>reverses := reverses iv2 + 1\<rparr>)\<rparr>)
             else
               let iv3 = (if discontinuity = - 1 then iv2\<lparr>duplicates := duplicates iv2 + 1\<rparr>
                          else iv2)
               in if discontinuity > 1 then
                    let iv4 = iv3\<lparr>burst_count := burst_count iv3 + 1\<rparr>;
                        burst_count_p' = (case burst_count_p of None \<Rightarrow> None
                                          | Some old \<Rightarrow> Some (burst_count iv4));
                        iv5 = (if discontinuity > longest_burst iv4
                               then iv4\<lparr>longest_burst := discontinuity\<rparr> else iv4)
                    in (to_int32 discontinuity, burst_count_p',
                        s\<lparr>m_port_seq_map := (m_port_seq_map s)(port \<mapsto> iv5)\<rparr>)
                  else
                    (0, burst_count_p,
                     s\<lparr>m_port_seq_map := (m_port_seq_map s)(port \<mapsto> iv3)\<rparr>))"

definition flowInterval :: "ReorderBuffer \<Rightarrow> int \<Rightarrow> ErrorInterval" where
  "flowInterval s port =
     (case m_port_seq_map s port of
        Some iv \<Rightarrow> iv
      | None \<Rightarrow> \<lparr>last_known_sn = 0, burst_count = 0, reverses = 0, duplicates = 0,
                 longest_burst = 0, seq_breaks = 0\<rparr>)"

subsection \<open>Spill\<close>

text \<open>
  One iteration of the loop of \<^verbatim>\<open>spill\<close>, on the buffer and the two local variables
  \<^verbatim>\<open>largest_burst\<close> and \<^verbatim>\<open>current_burst\<close>. In the \<^verbatim>\<open>!dropped\<close> branch the source
  sets \<^verbatim>\<open>current_burst = 0\<close> first and takes \<^verbatim>\<open>std::max(largest_burst, current_burst)\<close>
  afterwards.
\<close>

definition spill_iter :: "ReorderBuffer \<times> int \<times> int \<Rightarrow> ReorderBuffer \<times> int \<times> int" where
  "spill_iter = (\<lambda>(s, largest_burst, current_burst).
     let tail = m_buffer s ! nat (m_tail_idx s);
         dropped = (tail = 0);
         s1 = s\<lparr>m_buffer := (m_buffer s)[nat (m_tail_idx s) := 0]\<rparr>;
         (s2, largest_burst', current_burst') =
           (if dropped then
              (s1\<lparr>m_drops := m_drops s1 + 1\<rparr>,
               largest_burst,
               if m_tail_sn s1 > m_last_spilled_good_sn s1 + 2 then current_burst + 1
               else current_burst)
            else
              let current_burst0 = 0 in
              (s1\<lparr>m_dups := m_dups s1 + word_of_int (uint tail - 1),
                  m_last_spilled_good_sn := m_tail_sn s1,
                  good_departures := good_departures s1 + 1\<rparr>,
               max largest_burst current_burst0,
               current_burst0))
     in (s2\<lparr>m_tail_idx := (m_tail_idx s2 + 1) smod m_buffer_len s2,
            m_tail_sn := m_tail_sn s2 + 1\<rparr>,
         largest_burst', current_burst'))"

text \<open>\<^verbatim>\<open>for (int i = 0; i < distance; i++)\<close>: the body does not read \<open>i\<close>.\<close>

fun spill_loop :: "nat \<Rightarrow> ReorderBuffer \<times> int \<times> int \<Rightarrow> ReorderBuffer \<times> int \<times> int" where
  "spill_loop 0 x = x"
| "spill_loop (Suc n) x = spill_loop n (spill_iter x)"

definition spill :: "u64 \<Rightarrow> ReorderBuffer \<Rightarrow> (int \<times> ReorderBuffer) option" where
  "spill sn s =
     (let distance0 = to_int32 (uint (sn - highest_possible_sn s))
      in if distance0 > 0 then
           let (patchup_burst, distance, s1) =
                 (if distance0 \<ge> m_buffer_len s then
                    (distance0 - 1, m_buffer_len s,
                     s\<lparr>m_drops := m_drops s + word_of_int (distance0 - 1)\<rparr>)
                  else (0, min (occupancy s) distance0, s));
               (s2, largest_burst, current_burst) = spill_loop (nat distance) (s1, 0, 0);
               s3 = (if patchup_burst \<noteq> 0 then
                       s2\<lparr>m_tail_sn := sn,
                          m_head_idx := m_tail_idx s2,
                          m_buffer := (m_buffer s2)[nat (m_tail_idx s2) :=
                                         m_buffer s2 ! nat (m_tail_idx s2) + 1]\<rparr>
                     else mark sn s2);
               largest_burst' =
                 (if current_burst \<noteq> 0
                  then max largest_burst (to_int32 (current_burst + patchup_burst))
                  else max largest_burst patchup_burst)
           in Some (largest_burst', s3)
         else None)"

subsection \<open>addPacket\<close>

definition addPacket ::
  "u64 \<Rightarrow> u64 \<Rightarrow> int \<Rightarrow> int option \<Rightarrow> int option \<Rightarrow> ReorderBuffer
     \<Rightarrow> (int \<times> int option \<times> int option \<times> ReorderBuffer) option" where
  "addPacket sn flow_sn port flow_burst_len flow_burst_count s0 =
     (let s1 = s0\<lparr>m_largest_received_sn := max sn (m_largest_received_sn s0)\<rparr>;
          s2 = s1\<lparr>m_smallest_received_sn := min sn (m_smallest_received_sn s1)\<rparr>;
          (len, fbc, s3) = check_for_burst_error flow_sn port flow_burst_count s2
      in if m_tail_sn s3 = 0 then
           Some (0, flow_burst_len, fbc,
                 s3\<lparr>m_tail_sn := sn,
                    m_head_idx := m_tail_idx s3,
                    m_buffer := (m_buffer s3)[nat (m_tail_idx s3) := 1]\<rparr>)
         else
           let fbl = (case flow_burst_len of None \<Rightarrow> None | Some old \<Rightarrow> Some len);
               lsn = lowest_possible_sn s3;
               hsn = highest_possible_sn s3
           in if sn < lsn then Some (0, fbl, fbc, s3)
              else if sn \<le> hsn then
                (let idx = idx_for s3 sn
                 in if 0 \<le> idx \<and> idx < m_buffer_len s3 then Some (0, fbl, fbc, mark sn s3)
                    else None)
              else
                (case spill sn s3 of
                   None \<Rightarrow> None
                 | Some (stream_burst_len, s4) \<Rightarrow> Some (max 0 stream_burst_len, fbl, fbc, s4)))"

subsection \<open>Runs\<close>

text \<open>
  An arrival is \<open>(stream_sn, flow_sn, port)\<close>. \<open>admit\<close> is the call of
  \<^verbatim>\<open>UDPReceiver::on_read\<close> (\<^verbatim>\<open>receiver.cpp\<close>): the two out-variables are zeroed before
  every call; it keeps the stream burst length and the buffer. \<open>run\<close> admits a list of
  arrivals, \<open>run_trace\<close> also records the result of every call.
\<close>

type_synonym arrival = "u64 \<times> u64 \<times> int"

definition admit :: "arrival \<Rightarrow> ReorderBuffer \<Rightarrow> (int \<times> ReorderBuffer) option" where
  "admit a s =
     (case a of (sn, flow_sn, port) \<Rightarrow>
        (case addPacket sn flow_sn port (Some 0) (Some 0) s of
           None \<Rightarrow> None
         | Some (stream_burst_len, fbl, fbc, s') \<Rightarrow> Some (stream_burst_len, s')))"

fun run :: "arrival list \<Rightarrow> ReorderBuffer \<Rightarrow> ReorderBuffer option" where
  "run [] s = Some s"
| "run (a # as) s = (case admit a s of None \<Rightarrow> None | Some (r, s') \<Rightarrow> run as s')"

fun run_trace :: "arrival list \<Rightarrow> ReorderBuffer \<Rightarrow> (int \<times> ReorderBuffer) list option" where
  "run_trace [] s = Some []"
| "run_trace (a # as) s =
     (case admit a s of
        None \<Rightarrow> None
      | Some (r, s') \<Rightarrow>
          (case run_trace as s' of None \<Rightarrow> None | Some t \<Rightarrow> Some ((r, s') # t)))"

text \<open>
  The part of the result of \<open>addPacket\<close> that does not concern the out-variables: the
  returned stream burst length and the buffer.
\<close>

definition window_result ::
  "(int \<times> int option \<times> int option \<times> ReorderBuffer) option \<Rightarrow> (int \<times> ReorderBuffer) option" where
  "window_result x = map_option (\<lambda>(r, fbl, fbc, s). (r, s)) x"

subsection \<open>Observations\<close>

text \<open>
  What a test reads after each call: the returned stream burst length, \<^verbatim>\<open>drops()\<close> and
  \<^verbatim>\<open>duplicates()\<close>.
\<close>

definition observe :: "(int \<times> ReorderBuffer) list \<Rightarrow> (int \<times> u64 \<times> u64) list" where
  "observe t = map (\<lambda>(r, s). (r, drops s, duplicates_rb s)) t"


definition received_range :: "ReorderBuffer \<Rightarrow> u64 \<times> u64 \<times> u64" where
  "received_range s =
     (m_smallest_received_sn s, m_largest_received_sn s, stream_length_in_packets s)"

definition flow_counters :: "int \<Rightarrow> ReorderBuffer \<Rightarrow> int \<times> int \<times> int" where
  "flow_counters port s =
     (burst_count (flowInterval s port), seq_breaks (flowInterval s port),
      longest_burst (flowInterval s port))"

text \<open>
  The logical sequence number of slot \<open>i\<close> in the words of the specification:
  \<open>tail_sn + ((i - tail_idx) mod L)\<close>. \<open>slot_view\<close> shows a slot: its counter, its logical
  sequence number, what \<^verbatim>\<open>slot_sn\<close> of the source answers, the tail sequence number and the
  occupancy.
\<close>

definition logical_sn :: "ReorderBuffer \<Rightarrow> int \<Rightarrow> u64" where
  "logical_sn s i = m_tail_sn s + word_of_int ((i - m_tail_idx s) mod m_buffer_len s)"

definition slot_view :: "int \<Rightarrow> ReorderBuffer \<Rightarrow> u8 \<times> u64 \<times> u64 option \<times> u64 \<times> int" where
  "slot_view i s = (m_buffer s ! nat i, logical_sn s i, slot_sn s i, m_tail_sn s, occupancy s)"

text \<open>
  The discontinuities the tracker computes on port \<open>p\<close> along a list of arrivals:
  \<^verbatim>\<open>flow_sn - (last_known_sn + 1)\<close> as a signed 64-bit value, for every arrival on \<open>p\<close> but
  the first; \<open>known\<close> is the last flow sequence number seen on \<open>p\<close>, if any.
\<close>

fun flow_discontinuities :: "int \<Rightarrow> u64 option \<Rightarrow> arrival list \<Rightarrow> int list" where
  "flow_discontinuities p known [] = []"
| "flow_discontinuities p known ((sn, flow_sn, port) # as) =
     (if port = p then
        (case known of
           None \<Rightarrow> flow_discontinuities p (Some flow_sn) as
         | Some l \<Rightarrow> sint (flow_sn - (l + 1)) # flow_discontinuities p (Some flow_sn) as)
      else flow_discontinuities p known as)"

text \<open>
  \<open>counted iv0 iv ds\<close>: the counters of \<open>iv\<close> are those of \<open>iv0\<close> advanced by the
  discontinuities \<open>ds\<close>.
\<close>

definition counted :: "ErrorInterval \<Rightarrow> ErrorInterval \<Rightarrow> int list \<Rightarrow> bool" where
  "counted iv0 iv ds \<longleftrightarrow>
     burst_count iv = burst_count iv0 + int (length (filter (\<lambda>d. 1 < d) ds)) \<and>
     seq_breaks iv = seq_breaks iv0 + int (length (filter (\<lambda>d. 2 < abs_int64 d) ds)) \<and>
     longest_burst iv0 \<le> longest_burst iv \<and>
     list_all (\<lambda>d. d \<le> longest_burst iv) (filter (\<lambda>d. 1 < d) ds)"

text \<open>Scenario S1 of the specification (the test \<^verbatim>\<open>basic\<close>), on one port.\<close>

definition basic_arrivals :: "arrival list" where
  "basic_arrivals =
     [(2, 2, 0), (4, 4, 0), (6, 6, 0), (8, 8, 0), (10, 10, 0), (12, 12, 0), (14, 14, 0),
      (16, 16, 0), (17, 17, 0), (18, 18, 0), (19, 19, 0), (20, 20, 0), (21, 21, 0),
      (22, 22, 0), (23, 23, 0), (24, 24, 0)]"

subsection \<open>Well-formed buffers\<close>

text \<open>
  What the constructor establishes for a length between 1 and \<open>2\<^sup>3\<^sup>1 - 1\<close> and every call
  keeps: the array has \<open>m_buffer_len\<close> slots and both indices are inside it. No access of
  the model leaves the array of a well-formed buffer.
\<close>

definition wf :: "ReorderBuffer \<Rightarrow> bool" where
  "wf s \<longleftrightarrow> 0 < m_buffer_len s \<and> m_buffer_len s < 2147483648 \<and>
            length (m_buffer s) = nat (m_buffer_len s) \<and>
            0 \<le> m_tail_idx s \<and> m_tail_idx s < m_buffer_len s \<and>
            0 \<le> m_head_idx s \<and> m_head_idx s < m_buffer_len s"

text \<open>
  The buffer after the first three statements of \<open>addPacket\<close>: the received range and the
  continuity tracker are updated, the window is untouched.
\<close>

definition booked :: "u64 \<Rightarrow> u64 \<Rightarrow> int \<Rightarrow> int option \<Rightarrow> ReorderBuffer \<Rightarrow> ReorderBuffer" where
  "booked sn flow_sn port c s =
     snd (snd (check_for_burst_error flow_sn port c
       (s\<lparr>m_largest_received_sn := max sn (m_largest_received_sn s),
          m_smallest_received_sn := min sn (m_smallest_received_sn s)\<rparr>)))"

abbreviation (input) bk :: "u64 \<Rightarrow> u64 \<Rightarrow> int \<Rightarrow> ReorderBuffer \<Rightarrow> ReorderBuffer" where
  "bk sn f p s \<equiv> booked sn f p (Some 0) s"

text \<open>\<^verbatim>\<open>m_buffer[j] += 1\<close>.\<close>

definition bump :: "nat \<Rightarrow> ReorderBuffer \<Rightarrow> ReorderBuffer" where
  "bump j s = s\<lparr>m_buffer := (m_buffer s)[j := m_buffer s ! j + 1]\<rparr>"

subsection \<open>The classes of arrivals\<close>

text \<open>
  The branches of \<open>addPacket\<close> on a buffer that is not empty. \<open>in_window s sn\<close>: the
  sequence number \<open>sn\<close> is neither stale nor beyond the window, the arrival is marked.
  \<open>beyond_window s sn\<close>: \<open>sn\<close> is above \<^verbatim>\<open>highest_possible_sn()\<close>, the arrival calls
  \<^verbatim>\<open>spill\<close>.
\<close>

definition in_window :: "ReorderBuffer \<Rightarrow> u64 \<Rightarrow> bool" where
  "in_window s sn \<longleftrightarrow>
     m_tail_sn s \<noteq> 0 \<and> lowest_possible_sn s \<le> sn \<and> sn \<le> highest_possible_sn s"

definition beyond_window :: "ReorderBuffer \<Rightarrow> u64 \<Rightarrow> bool" where
  "beyond_window s sn \<longleftrightarrow>
     m_tail_sn s \<noteq> 0 \<and> lowest_possible_sn s \<le> sn \<and> highest_possible_sn s < sn"

subsection \<open>Two runs that differ by extra copies of one packet\<close>

text \<open>
  A list of tagged arrivals stands for two runs: the tag \<open>True\<close> marks an extra copy.
  \<open>without_extras\<close> is the run without the extra copies, \<open>with_extras\<close> the run with them.
\<close>

definition without_extras :: "(bool \<times> arrival) list \<Rightarrow> arrival list" where
  "without_extras xs = map snd (filter (\<lambda>x. \<not> fst x) xs)"

definition with_extras :: "(bool \<times> arrival) list \<Rightarrow> arrival list" where
  "with_extras xs = map snd xs"

text \<open>
  \<open>spill_iterations sn s\<close>: the number of iterations of the loop of \<^verbatim>\<open>spill\<close> for the
  arrival \<open>sn\<close>, the final value of \<^verbatim>\<open>distance\<close>. \<open>tail_visits i n L ti\<close>: slot \<open>i\<close> is one
  of the \<open>n\<close> slots that the loop clears when it starts at the tail index \<open>ti\<close>.
  \<open>slot_spilled i sn s\<close>: the arrival \<open>sn\<close> calls \<^verbatim>\<open>spill\<close> and the loop clears slot \<open>i\<close>:
  the slot leaves the window via spill.
\<close>

fun tail_visits :: "nat \<Rightarrow> nat \<Rightarrow> int \<Rightarrow> int \<Rightarrow> bool" where
  "tail_visits i 0 L ti = False"
| "tail_visits i (Suc n) L ti = (nat ti = i \<or> tail_visits i n L ((ti + 1) smod L))"

definition spill_iterations :: "u64 \<Rightarrow> ReorderBuffer \<Rightarrow> nat" where
  "spill_iterations sn s =
     (let distance = to_int32 (uint (sn - highest_possible_sn s))
      in nat (if distance \<ge> m_buffer_len s then m_buffer_len s
              else min (occupancy s) distance))"

definition slot_spilled :: "nat \<Rightarrow> u64 \<Rightarrow> ReorderBuffer \<Rightarrow> bool" where
  "slot_spilled i sn s \<longleftrightarrow>
     beyond_window s sn \<and>
     tail_visits i (spill_iterations sn s) (m_buffer_len s) (m_tail_idx s)"

text \<open>
  \<open>pending_copies i j xs s\<close>: the number of extra copies that are in slot \<open>i\<close> after the
  tagged arrivals \<open>xs\<close>, when \<open>j\<close> of them are there before: an extra copy adds one, and an
  arrival that spills slot \<open>i\<close> takes them all out. \<open>s\<close> is the buffer of the run without
  the copies.
\<close>

fun pending_copies :: "nat \<Rightarrow> nat \<Rightarrow> (bool \<times> arrival) list \<Rightarrow> ReorderBuffer \<Rightarrow> nat" where
  "pending_copies i j [] s = j"
| "pending_copies i j (x # xs) s =
     (if fst x then pending_copies i (Suc j) xs s
      else case admit (snd x) s of
             None \<Rightarrow> j
           | Some (r, s') \<Rightarrow>
               pending_copies i (if slot_spilled i (fst (snd x)) s then 0 else j) xs s')"

text \<open>
  \<open>head_settled s sn\<close>: marking \<open>sn\<close> again does not move the head: \<open>sn\<close> is not above
  \<^verbatim>\<open>largest_sn\<close> of \<open>mark\<close>, or the head is already at the slot of \<open>sn\<close>.
\<close>

definition head_settled :: "ReorderBuffer \<Rightarrow> u64 \<Rightarrow> bool" where
  "head_settled s sn \<longleftrightarrow>
     sn \<le> m_tail_sn s + word_of_int (occupancy s) - 1 \<or> m_head_idx s = idx_for s sn"

text \<open>
  \<open>copies_fit i sn j xs s\<close>, on the run without the copies, \<open>j\<close> copies being in slot \<open>i\<close> at
  the start. Every extra copy in \<open>xs\<close> is an extra delivery of \<open>sn\<close> while it is in the
  window: it has the sequence number \<open>sn\<close>, \<open>sn\<close> is in the window, its slot is \<open>i\<close> and
  holds a counter that is not 0 (\<open>sn\<close> has been delivered and has not left), and \<open>sn\<close> is not
  ahead of the head. And the 8-bit counter of the slot has room for the copies: the counter
  of the run without the copies plus the number of pending copies is at most 255 after
  every arrival. While copies are pending, \<^verbatim>\<open>m_tail_sn\<close> does not wrap around to 0, the
  value that stands for the empty buffer.
\<close>

fun copies_fit :: "nat \<Rightarrow> u64 \<Rightarrow> nat \<Rightarrow> (bool \<times> arrival) list \<Rightarrow> ReorderBuffer \<Rightarrow> bool" where
  "copies_fit i sn j [] s = True"
| "copies_fit i sn j (x # xs) s =
     (if fst x then
        fst (snd x) = sn \<and> in_window s sn \<and> nat (idx_for s sn) = i \<and> m_buffer s ! i \<noteq> 0 \<and>
        head_settled s sn \<and> unat (m_buffer s ! i) + Suc j \<le> 255 \<and>
        copies_fit i sn (Suc j) xs s
      else
        (j = 0 \<or> m_tail_sn s \<noteq> 0) \<and>
        (case admit (snd x) s of
           None \<Rightarrow> True
         | Some (r, s') \<Rightarrow>
             let j' = (if slot_spilled i (fst (snd x)) s then 0 else j)
             in (j' = 0 \<or> unat (m_buffer s' ! i) + j' \<le> 255) \<and> copies_fit i sn j' xs s'))"

text \<open>
  \<open>s\<close> is a buffer of the run without the extra copies, \<open>t\<close> the buffer of the run with them
  at the same point. They agree on the window bookkeeping; \<open>j\<close> copies are pending in slot
  \<open>i\<close> (its counter is larger by \<open>j\<close> in \<open>t\<close>) and \<open>c\<close> copies have been counted (\<^verbatim>\<open>m_dups\<close> is
  larger by \<open>c\<close> in \<open>t\<close>).
\<close>

definition window_agree :: "ReorderBuffer \<Rightarrow> ReorderBuffer \<Rightarrow> bool" where
  "window_agree s t \<longleftrightarrow>
     m_buffer_len t = m_buffer_len s \<and> m_tail_idx t = m_tail_idx s \<and>
     m_head_idx t = m_head_idx s \<and> m_tail_sn t = m_tail_sn s \<and>
     m_last_spilled_good_sn t = m_last_spilled_good_sn s \<and> m_drops t = m_drops s \<and>
     good_departures t = good_departures s"

definition copies_in_slot :: "nat \<Rightarrow> nat \<Rightarrow> nat \<Rightarrow> ReorderBuffer \<Rightarrow> ReorderBuffer \<Rightarrow> bool" where
  "copies_in_slot i j c s t \<longleftrightarrow>
     window_agree s t \<and> m_dups t = m_dups s + of_nat c \<and>
     m_buffer t = (m_buffer s)[i := m_buffer s ! i + of_nat j] \<and>
     (j = 0 \<or> i < length (m_buffer s) \<and> m_buffer s ! i \<noteq> 0 \<and> unat (m_buffer s ! i) + j \<le> 255)"

definition drops_and_dups :: "ReorderBuffer \<Rightarrow> u64 \<times> u64" where
  "drops_and_dups s = (drops s, duplicates_rb s)"

subsection \<open>Accounting for departures\<close>

text \<open>
  \<open>jump_fits s sn\<close>: the distance \<^verbatim>\<open>sn - highest_possible_sn()\<close>, a \<^verbatim>\<open>uint64_t\<close>, is
  below \<open>2\<^sup>3\<^sup>1\<close>, so that \<^verbatim>\<open>int distance\<close> of \<^verbatim>\<open>spill\<close> holds it unchanged.
  \<open>jumps_fit as s\<close>: along the run of \<open>as\<close> from \<open>s\<close>, every arrival beyond the window, that
  is, every arrival that calls \<^verbatim>\<open>spill\<close>, has a distance that fits.
\<close>

definition jump_fits :: "ReorderBuffer \<Rightarrow> u64 \<Rightarrow> bool" where
  "jump_fits s sn \<longleftrightarrow> uint (sn - highest_possible_sn s) < 2147483648"

fun jumps_fit :: "arrival list \<Rightarrow> ReorderBuffer \<Rightarrow> bool" where
  "jumps_fit [] s = True"
| "jumps_fit (a # as) s =
     ((\<not> beyond_window s (fst a) \<or> jump_fits s (fst a)) \<and>
      (case admit a s of None \<Rightarrow> True | Some (r, s') \<Rightarrow> jumps_fit as s'))"

text \<open>
  The first stream sequence number of a list of arrivals that is not 0. An arrival with
  sequence number 0 leaves \<^verbatim>\<open>m_tail_sn\<close> at 0, the value that stands for the empty buffer,
  so the window starts at the first arrival with another number.
\<close>

fun first_sn :: "arrival list \<Rightarrow> u64" where
  "first_sn [] = 0"
| "first_sn (a # as) = (if fst a = 0 then first_sn as else fst a)"

text \<open>
  \<open>unstarted s\<close>: no arrival with a sequence number other than 0 has been admitted.
  \<open>accounted a0 s\<close>: the window started at sequence number \<open>a0\<close>, and every sequence number
  from \<open>a0\<close> up to the tail has left the window as a drop or as a good departure; the tail
  is not above the largest received number, which is less than two buffer lengths above the
  tail unless \<^verbatim>\<open>highest_possible_sn()\<close> has wrapped around.
\<close>

definition unstarted :: "ReorderBuffer \<Rightarrow> bool" where
  "unstarted s \<longleftrightarrow>
     wf s \<and> m_tail_sn s = 0 \<and> m_drops s = 0 \<and> good_departures s = 0 \<and>
     m_largest_received_sn s = 0 \<and> m_smallest_received_sn s = 0"

definition accounted :: "u64 \<Rightarrow> ReorderBuffer \<Rightarrow> bool" where
  "accounted a0 s \<longleftrightarrow>
     wf s \<and> m_tail_sn s \<noteq> 0 \<and>
     uint (m_drops s) + int (good_departures s) + uint a0 = uint (m_tail_sn s) \<and>
     uint (m_tail_sn s) \<le> uint (m_largest_received_sn s) \<and>
     (uint (m_largest_received_sn s) \<le> uint (m_tail_sn s) + 2 * m_buffer_len s - 2 \<or>
      18446744073709551616 < uint (m_tail_sn s) + m_buffer_len s) \<and>
     uint (m_smallest_received_sn s) \<le> uint a0"

text \<open>
  The two sides of the inequality of the specification:
  \<open>drops + dups + observed_good_departures\<close> and
  \<open>largest_received_sn - smallest_received_sn + 1\<close>.
\<close>

definition departure_sums :: "ReorderBuffer \<Rightarrow> int \<times> int" where
  "departure_sums s =
     (uint (drops s) + uint (duplicates_rb s) + int (good_departures s),
      uint (m_largest_received_sn s) - uint (m_smallest_received_sn s) + 1)"

subsection \<open>In-order arrivals\<close>

text \<open>
  \<open>in_order port sn n\<close>: the arrivals of the loop of the tests,
  \<^verbatim>\<open>addPacket(sn, sn, port, ...); sn += 1\<close>, \<open>n\<close> times.
\<close>

fun in_order :: "int \<Rightarrow> u64 \<Rightarrow> nat \<Rightarrow> arrival list" where
  "in_order port sn 0 = []"
| "in_order port sn (Suc n) = (sn, sn, port) # in_order port (sn + 1) n"

text \<open>
  \<open>in_order_window L t k d s\<close>: the buffer of capacity \<open>L\<close> after the \<open>k\<close> in-order
  arrivals \<open>t, ..., t + k - 1\<close> into an empty window whose tail slot is 0: the first \<open>k\<close>
  slots hold 1, the head is slot \<open>k - 1\<close>, the drops are \<open>d\<close> and there are no duplicates.
\<close>

definition in_order_window :: "int \<Rightarrow> u64 \<Rightarrow> nat \<Rightarrow> u64 \<Rightarrow> ReorderBuffer \<Rightarrow> bool" where
  "in_order_window L t k d s \<longleftrightarrow>
     wf s \<and> m_buffer_len s = L \<and> m_tail_idx s = 0 \<and> m_head_idx s = int k - 1 \<and>
     m_tail_sn s = t \<and> m_buffer s = replicate k 1 @ replicate (nat L - k) 0 \<and>
     m_drops s = d \<and> m_dups s = 0"

section \<open>Properties\<close>

subsection \<open>Basic facts\<close>

lemma cfbe_state:
  "check_for_burst_error f p c s = (r, c', s') \<Longrightarrow> s' = s\<lparr>m_port_seq_map := m_port_seq_map s'\<rparr>"
  unfolding check_for_burst_error_def Let_def
  by (auto split: option.splits if_splits)

lemma window_fields_upd [simp]:
  "occupancy (s\<lparr>m_port_seq_map := pm\<rparr>) = occupancy s"
  "occupancy (s\<lparr>m_largest_received_sn := a\<rparr>) = occupancy s"
  "occupancy (s\<lparr>m_smallest_received_sn := b\<rparr>) = occupancy s"
  "lowest_possible_sn (s\<lparr>m_port_seq_map := pm\<rparr>) = lowest_possible_sn s"
  "lowest_possible_sn (s\<lparr>m_largest_received_sn := a\<rparr>) = lowest_possible_sn s"
  "lowest_possible_sn (s\<lparr>m_smallest_received_sn := b\<rparr>) = lowest_possible_sn s"
  "highest_possible_sn (s\<lparr>m_port_seq_map := pm\<rparr>) = highest_possible_sn s"
  "highest_possible_sn (s\<lparr>m_largest_received_sn := a\<rparr>) = highest_possible_sn s"
  "highest_possible_sn (s\<lparr>m_smallest_received_sn := b\<rparr>) = highest_possible_sn s"
  "idx_for (s\<lparr>m_port_seq_map := pm\<rparr>) sn = idx_for s sn"
  "idx_for (s\<lparr>m_largest_received_sn := a\<rparr>) sn = idx_for s sn"
  "idx_for (s\<lparr>m_smallest_received_sn := b\<rparr>) sn = idx_for s sn"
  by (simp_all add: occupancy_def lowest_possible_sn_def highest_possible_sn_def idx_for_def
      Let_def)

subsection \<open>Stale arrivals\<close>

text \<open>
  Claim C9. If the buffer is non-empty (\<open>m_tail_sn \<noteq> 0\<close>) and the arrival's stream
  sequence number is below \<open>lowest_possible_sn\<close>, \<open>addPacket\<close> returns 0 and leaves the tail
  sequence number, the tail and head indices, every slot counter, the drops and the
  duplicates unchanged.
\<close>

theorem stale_arrival_ignored:
  assumes "m_tail_sn s \<noteq> 0" and "sn < lowest_possible_sn s"
  shows "\<exists>fbl fbc s'.
           addPacket sn flow_sn port flow_burst_len flow_burst_count s = Some (0, fbl, fbc, s') \<and>
           m_tail_sn s' = m_tail_sn s \<and> m_tail_idx s' = m_tail_idx s \<and>
           m_head_idx s' = m_head_idx s \<and> m_buffer s' = m_buffer s \<and>
           drops s' = drops s \<and> duplicates_rb s' = duplicates_rb s"
proof -
  let ?s2 = "s\<lparr>m_largest_received_sn := max sn (m_largest_received_sn s),
               m_smallest_received_sn := min sn (m_smallest_received_sn s)\<rparr>"
  obtain len fbc s3
    where cf: "check_for_burst_error flow_sn port flow_burst_count ?s2 = (len, fbc, s3)"
    by (cases "check_for_burst_error flow_sn port flow_burst_count ?s2") auto
  from cfbe_state [OF cf] have s3: "s3 = ?s2\<lparr>m_port_seq_map := m_port_seq_map s3\<rparr>" .
  have tail: "m_tail_sn s3 = m_tail_sn s" by (subst s3) simp
  have lsn: "lowest_possible_sn s3 = lowest_possible_sn s" by (subst s3) simp
  have flds: "m_tail_idx s3 = m_tail_idx s" "m_head_idx s3 = m_head_idx s"
    "m_buffer s3 = m_buffer s" "m_drops s3 = m_drops s" "m_dups s3 = m_dups s"
    by (subst s3, simp)+
  show ?thesis
    using assms cf tail lsn flds
    by (simp add: addPacket_def Let_def drops_def duplicates_rb_def)
qed

text \<open>
  The hypotheses hold in a buffer of 8 slots that has admitted sequence number 100: the
  lowest admissible number is then 93, and 50 is stale.
\<close>

theorem stale_arrival_ignored_witness:
  "\<exists>s. run [(100, 100, 0)] (new_ReorderBuffer 8) = Some s \<and>
       m_tail_sn s \<noteq> 0 \<and> 50 < lowest_possible_sn s \<and>
       (\<exists>fbl fbc s'.
           addPacket 50 50 0 (Some 0) (Some 0) s = Some (0, fbl, fbc, s') \<and>
           m_tail_sn s' = m_tail_sn s \<and> m_tail_idx s' = m_tail_idx s \<and>
           m_head_idx s' = m_head_idx s \<and> m_buffer s' = m_buffer s \<and>
           drops s' = drops s \<and> duplicates_rb s' = duplicates_rb s)"
proof -
  obtain s where s: "run [(100, 100, 0)] (new_ReorderBuffer 8) = Some s"
    by (simp add: admit_def addPacket_def check_for_burst_error_def new_ReorderBuffer_def)
  then have flds: "m_tail_sn s = 100" "m_tail_idx s = 0" "m_head_idx s = 0" "m_buffer_len s = 8"
    by (auto simp: admit_def addPacket_def check_for_burst_error_def new_ReorderBuffer_def)
  have h1: "m_tail_sn s \<noteq> 0" using flds by simp
  have h2: "50 < lowest_possible_sn s"
    using flds by (simp add: lowest_possible_sn_def occupancy_def)
  from stale_arrival_ignored [OF h1 h2, of 50 0 "Some 0" "Some 0"] s h1 h2
  show ?thesis by blast
qed

subsection \<open>Frame facts\<close>

lemma spill_iter_frame:
  assumes "spill_iter (s, lb, cb) = (s', lb', cb')"
  shows "m_port_seq_map s' = m_port_seq_map s"
    and "m_buffer_len s' = m_buffer_len s"
    and "length (m_buffer s') = length (m_buffer s)"
    and "m_largest_received_sn s' = m_largest_received_sn s"
    and "m_smallest_received_sn s' = m_smallest_received_sn s"
    and "m_head_idx s' = m_head_idx s"
  using assms
  by (cases "m_buffer s ! nat (m_tail_idx s) = 0"; auto simp: spill_iter_def Let_def)+

lemma spill_loop_frame:
  assumes "spill_loop n (s, lb, cb) = (s', lb', cb')"
  shows "m_port_seq_map s' = m_port_seq_map s \<and> m_buffer_len s' = m_buffer_len s \<and>
         length (m_buffer s') = length (m_buffer s) \<and>
         m_largest_received_sn s' = m_largest_received_sn s \<and>
         m_smallest_received_sn s' = m_smallest_received_sn s \<and>
         m_head_idx s' = m_head_idx s"
  using assms
proof (induction n arbitrary: s lb cb)
  case 0 then show ?case by simp
next
  case (Suc n)
  obtain s1 lb1 cb1 where it: "spill_iter (s, lb, cb) = (s1, lb1, cb1)"
    by (cases "spill_iter (s, lb, cb)") auto
  with Suc.prems have "spill_loop n (s1, lb1, cb1) = (s', lb', cb')" by simp
  from Suc.IH [OF this] spill_iter_frame [OF it] show ?case by simp
qed

lemma mark_frame:
  "m_port_seq_map (mark sn s) = m_port_seq_map s"
  "m_buffer_len (mark sn s) = m_buffer_len s"
  "length (m_buffer (mark sn s)) = length (m_buffer s)"
  "m_largest_received_sn (mark sn s) = m_largest_received_sn s"
  "m_smallest_received_sn (mark sn s) = m_smallest_received_sn s"
  "m_tail_idx (mark sn s) = m_tail_idx s"
  "m_tail_sn (mark sn s) = m_tail_sn s"
  "m_drops (mark sn s) = m_drops s"
  "m_dups (mark sn s) = m_dups s"
  "good_departures (mark sn s) = good_departures s"
  "m_last_spilled_good_sn (mark sn s) = m_last_spilled_good_sn s"
  by (simp_all add: mark_def Let_def)

lemma spill_frame:
  assumes "spill sn s = Some (r, s')"
  shows "m_port_seq_map s' = m_port_seq_map s \<and> m_buffer_len s' = m_buffer_len s \<and>
         length (m_buffer s') = length (m_buffer s) \<and>
         m_largest_received_sn s' = m_largest_received_sn s \<and>
         m_smallest_received_sn s' = m_smallest_received_sn s"
proof -
  let ?d0 = "to_int32 (uint (sn - highest_possible_sn s))"
  let ?patch = "m_buffer_len s \<le> ?d0"
  let ?s1 = "if ?patch then s\<lparr>m_drops := m_drops s + word_of_int (?d0 - 1)\<rparr> else s"
  let ?n = "nat (if ?patch then m_buffer_len s else min (occupancy s) ?d0)"
  obtain s2 lb cb where lp: "spill_loop ?n (?s1, 0, 0) = (s2, lb, cb)"
    by (cases "spill_loop ?n (?s1, 0, 0)") auto
  from spill_loop_frame [OF lp]
  have f2: "m_port_seq_map s2 = m_port_seq_map s" "m_buffer_len s2 = m_buffer_len s"
    "length (m_buffer s2) = length (m_buffer s)"
    "m_largest_received_sn s2 = m_largest_received_sn s"
    "m_smallest_received_sn s2 = m_smallest_received_sn s"
    by (simp_all split: if_splits)
  from assms lp have "s' = mark sn s2 \<or> s' = s2\<lparr>m_tail_sn := sn, m_head_idx := m_tail_idx s2,
        m_buffer := (m_buffer s2)[nat (m_tail_idx s2) := m_buffer s2 ! nat (m_tail_idx s2) + 1]\<rparr>"
    by (auto simp: spill_def Let_def split: if_splits)
  with f2 show ?thesis by (auto simp: mark_frame)
qed

lemma addPacket_port_map:
  assumes "addPacket sn f p l c s = Some (r, l', c', s')"
  shows "m_port_seq_map s' = m_port_seq_map (snd (snd (check_for_burst_error f p c s)))"
proof -
  let ?s2 = "s\<lparr>m_largest_received_sn := max sn (m_largest_received_sn s),
               m_smallest_received_sn := min sn (m_smallest_received_sn s)\<rparr>"
  obtain len fbc s3 where cf: "check_for_burst_error f p c ?s2 = (len, fbc, s3)"
    by (cases "check_for_burst_error f p c ?s2") auto
  have pm: "m_port_seq_map s3 = m_port_seq_map (snd (snd (check_for_burst_error f p c s)))"
    using cf by (auto simp: check_for_burst_error_def Let_def split: option.splits if_splits)
  from assms cf have "m_port_seq_map s' = m_port_seq_map s3"
    by (auto simp: addPacket_def Let_def mark_frame split: if_splits option.splits dest: spill_frame)
  with pm show ?thesis by simp
qed

lemma admit_port_map:
  assumes "admit (sn, f, q) s = Some (r, s')"
  shows "m_port_seq_map s' = m_port_seq_map (snd (snd (check_for_burst_error f q (Some 0) s)))"
  using assms addPacket_port_map
  by (auto simp: admit_def split: option.splits)

subsection \<open>The out-parameters of addPacket\<close>






subsection \<open>The continuity tracker\<close>

lemma cfbe_port_other:
  "q \<noteq> p \<Longrightarrow> m_port_seq_map (snd (snd (check_for_burst_error f q c s))) p = m_port_seq_map s p"
  by (auto simp: check_for_burst_error_def Let_def split: option.splits)

lemma cfbe_port_new:
  "m_port_seq_map s p = None \<Longrightarrow>
   m_port_seq_map (snd (snd (check_for_burst_error f p c s))) p =
     Some \<lparr>last_known_sn = f, burst_count = 0, reverses = 0, duplicates = 0,
           longest_burst = 0, seq_breaks = 0\<rparr>"
  by (simp add: check_for_burst_error_def)

lemma cfbe_port_known:
  assumes "m_port_seq_map s p = Some iv"
  shows "\<exists>iv'. m_port_seq_map (snd (snd (check_for_burst_error f p c s))) p = Some iv' \<and>
           last_known_sn iv' = f \<and>
           burst_count iv' = burst_count iv + (if 1 < discontinuity_of iv f then 1 else 0) \<and>
           seq_breaks iv' = seq_breaks iv + (if 2 < abs_int64 (discontinuity_of iv f) then 1 else 0) \<and>
           longest_burst iv' =
             (if 1 < discontinuity_of iv f then max (longest_burst iv) (discontinuity_of iv f)
              else longest_burst iv)"
  using assms by (auto simp: check_for_burst_error_def Let_def)

lemma run_port_known:
  assumes "run as s0 = Some s" and "m_port_seq_map s0 p = Some iv0"
  shows "\<exists>iv. m_port_seq_map s p = Some iv \<and>
              counted iv0 iv (flow_discontinuities p (Some (last_known_sn iv0)) as)"
  using assms
proof (induction as arbitrary: s0 iv0)
  case Nil
  then show ?case by (simp add: counted_def)
next
  case (Cons a as)
  obtain sn f q where a: "a = (sn, f, q)" by (cases a) auto
  from Cons.prems(1) obtain r s1 where ad: "admit (sn, f, q) s0 = Some (r, s1)"
    and rest: "run as s1 = Some s"
    by (auto simp: a split: option.splits)
  note pm = admit_port_map [OF ad]
  show ?case
  proof (cases "q = p")
    case False
    with pm Cons.prems(2) have "m_port_seq_map s1 p = Some iv0" by (simp add: cfbe_port_other)
    from Cons.IH [OF rest this] False show ?thesis by (simp add: a)
  next
    case True
    from cfbe_port_known [OF Cons.prems(2), of f "Some 0"] pm True
    obtain iv1 where iv1: "m_port_seq_map s1 p = Some iv1" "last_known_sn iv1 = f"
      "burst_count iv1 = burst_count iv0 + (if 1 < discontinuity_of iv0 f then 1 else 0)"
      "seq_breaks iv1 = seq_breaks iv0 + (if 2 < abs_int64 (discontinuity_of iv0 f) then 1 else 0)"
      "longest_burst iv1 =
             (if 1 < discontinuity_of iv0 f then max (longest_burst iv0) (discontinuity_of iv0 f)
              else longest_burst iv0)"
      by auto
    from Cons.IH [OF rest iv1(1)] obtain iv where iv: "m_port_seq_map s p = Some iv"
      "counted iv1 iv (flow_discontinuities p (Some f) as)"
      using iv1(2) by auto
    have d: "discontinuity_of iv0 f = sint (f - (last_known_sn iv0 + 1))"
      by (simp add: discontinuity_of_def)
    have "counted iv0 iv (flow_discontinuities p (Some (last_known_sn iv0)) (a # as))"
      using iv(2) iv1(3,4,5) True
      by (auto simp: counted_def a d)
    with iv(1) show ?thesis by blast
  qed
qed

lemma run_port_unknown:
  assumes "run as s0 = Some s" and "m_port_seq_map s0 p = None"
  shows "case m_port_seq_map s p of
           None \<Rightarrow> flow_discontinuities p None as = []
         | Some iv \<Rightarrow> counted \<lparr>last_known_sn = 0, burst_count = 0, reverses = 0, duplicates = 0,
                               longest_burst = 0, seq_breaks = 0\<rparr> iv
                         (flow_discontinuities p None as)"
  using assms
proof (induction as arbitrary: s0)
  case Nil
  then show ?case by simp
next
  case (Cons a as)
  obtain sn f q where a: "a = (sn, f, q)" by (cases a) auto
  from Cons.prems(1) obtain r s1 where ad: "admit (sn, f, q) s0 = Some (r, s1)"
    and rest: "run as s1 = Some s"
    by (auto simp: a split: option.splits)
  note pm = admit_port_map [OF ad]
  show ?case
  proof (cases "q = p")
    case False
    with pm Cons.prems(2) have "m_port_seq_map s1 p = None" by (simp add: cfbe_port_other)
    from Cons.IH [OF rest this] False show ?thesis by (auto simp: a split: option.splits)
  next
    case True
    let ?iv1 = "\<lparr>last_known_sn = f, burst_count = 0, reverses = 0, duplicates = 0,
                 longest_burst = 0, seq_breaks = 0\<rparr>"
    from cfbe_port_new [OF Cons.prems(2), of f "Some 0"] pm True
    have s1: "m_port_seq_map s1 p = Some ?iv1" by simp
    from run_port_known [OF rest s1] obtain iv where iv: "m_port_seq_map s p = Some iv"
      "counted ?iv1 iv (flow_discontinuities p (Some f) as)" by auto
    then show ?thesis using True by (simp add: a counted_def)
  qed
qed

text \<open>
  The counters of a port after any run from a new buffer: \<open>burst_count\<close> is the number of
  discontinuities above 1, \<open>seq_breaks\<close> the number of discontinuities whose absolute value,
  as \<^verbatim>\<open>std::abs\<close> computes it, is above 2, and \<open>longest_burst\<close> is at least every forward
  gap.
\<close>

lemma tracker_counts:
  assumes "run as (new_ReorderBuffer len) = Some s"
  shows "burst_count (flowInterval s p) =
           int (length (filter (\<lambda>d. 1 < d) (flow_discontinuities p None as))) \<and>
         seq_breaks (flowInterval s p) =
           int (length (filter (\<lambda>d. 2 < abs_int64 d) (flow_discontinuities p None as))) \<and>
         list_all (\<lambda>d. d \<le> longest_burst (flowInterval s p))
           (filter (\<lambda>d. 1 < d) (flow_discontinuities p None as))"
proof -
  have "m_port_seq_map (new_ReorderBuffer len) p = None" by (simp add: new_ReorderBuffer_def)
  from run_port_unknown [OF assms this]
  show ?thesis
    by (cases "m_port_seq_map s p") (simp_all add: flowInterval_def counted_def)
qed

text \<open>
  Claim C6 at the input 1, 4 (flow sequence numbers on one port) on a buffer of 8 slots.
  The second arrival is a forward gap of 2 (the numbers 2 and 3 are missing):
  \<open>burst_count\<close> is 1 and \<open>seq_breaks\<close> is 0, so \<open>burst_count \<le> seq_breaks\<close> fails. The
  guard of \<open>seq_breaks\<close> is \<^verbatim>\<open>std::abs(discontinuity) > 2\<close>, that of \<open>burst_count\<close> is
  \<^verbatim>\<open>discontinuity > 1\<close>. \<open>longest_burst\<close> is 2, the gap.
\<close>

theorem burst_without_seq_break:
  "map_option (flow_counters 0) (run [(1, 1, 0), (4, 4, 0)] (new_ReorderBuffer 8)) =
     Some (1, 0, 2)"
  by code_simp

subsection \<open>The two signed operations that wrap around\<close>

text \<open>
  For a discontinuity of \<open>- 2\<^sup>6\<^sup>3\<close> (flow sequence number 0, then \<open>2\<^sup>6\<^sup>3 + 1\<close>)
  \<^verbatim>\<open>std::abs\<close> returns \<open>- 2\<^sup>6\<^sup>3\<close>: the arrival is a reversal and \<open>seq_breaks\<close> stays 0. For
  an arrival \<open>2\<^sup>3\<^sup>1 - 1\<close> beyond \<^verbatim>\<open>highest_possible_sn()\<close> after the single packet 1, the
  running burst 5 plus the patch-up burst \<open>2\<^sup>3\<^sup>1 - 2\<close> wraps around and the call returns 0.
\<close>

lemma abs_int64_smallest: "abs_int64 (- 9223372036854775808) = - 9223372036854775808"
  by (simp add: abs_int64_def)

lemma smallest_discontinuity_is_no_break:
  "map_option (flow_counters 0)
     (run [(1, 0, 0), (2, 9223372036854775809, 0)] (new_ReorderBuffer 8)) = Some (0, 0, 0)"
  by code_simp

lemma burst_sum_wraps:
  "map_option observe (run_trace [(1, 1, 0), (2147483655, 2, 0)] (new_ReorderBuffer 8)) =
     Some [(0, 0, 0), (0, 2147483653, 0)]"
  by code_simp

subsection \<open>The received range\<close>

text \<open>
  Claim C4 at the input 5, 7 on a buffer of 8 slots: the smallest received sequence number
  is 0, not 5, and the stream length is 8, not 3. \<^verbatim>\<open>m_smallest_received_sn\<close> starts at 0
  and \<^verbatim>\<open>std::min\<close> never raises it.
\<close>

theorem smallest_received_sn_is_zero:
  "map_option received_range (run [(5, 5, 0), (7, 7, 0)] (new_ReorderBuffer 8)) = Some (0, 7, 8)"
  by code_simp

subsection \<open>Bursts inside the spill loop\<close>

lemma spill_iter_largest: "fst (snd (spill_iter (s, 0, cb))) = 0"
  by (cases "m_buffer s ! nat (m_tail_idx s) = 0") (simp_all add: spill_iter_def Let_def)

lemma spill_loop_largest: "fst (snd (spill_loop n (s, 0, cb))) = 0"
proof (induction n arbitrary: s cb)
  case 0 show ?case by simp
next
  case (Suc n)
  obtain s' lb' cb' where it: "spill_iter (s, 0, cb) = (s', lb', cb')"
    by (cases "spill_iter (s, 0, cb)") auto
  with spill_iter_largest [of s cb] have "lb' = 0" by simp
  with it Suc show ?case by simp
qed

text \<open>
  Claim C3 at the input 1, 6, 8, 14 on a buffer of 8 slots. The arrival of 14 spills the
  slots of 1 to 6: 2 to 5 are drops, 4 and 5 form a running burst of length 2, and 6 closes
  it inside the loop. The call returns 0: \<^verbatim>\<open>current_burst\<close> is reset before
  \<^verbatim>\<open>largest_burst\<close> takes the maximum.
\<close>

theorem closed_burst_not_returned:
  "map_option observe
     (run_trace [(1, 1, 0), (6, 6, 0), (8, 8, 0), (14, 14, 0)] (new_ReorderBuffer 8)) =
   Some [(0, 0, 0), (0, 0, 0), (0, 0, 0), (0, 4, 0)]"
  by code_simp

subsection \<open>Slots and sequence numbers\<close>

text \<open>
  Claim C2 at the input 5, 3 on a buffer of 8 slots. The arrival 3 is in the window
  (the lowest admissible number is 0) and below the tail 5. It is counted in slot 6, whose
  logical sequence number is 11, outside the occupied range from 5 to 5; \<^verbatim>\<open>slot_sn\<close>
  answers 0 for this slot.
\<close>

theorem below_tail_arrival_misplaced:
  "map_option (slot_view 6) (run [(5, 5, 0), (3, 3, 0)] (new_ReorderBuffer 8)) =
     Some (1, 11, Some 0, 5, 1)"
  by code_simp

subsection \<open>Scenario S1\<close>

text \<open>
  Claim C5, as the code has it. In scenario S1 every call returns 0 and the duplicates stay
  0; the drops are 0 for the first five arrivals and reach 7 at the end: the sequence
  numbers 3, 5, ..., 15 never arrive and their slots are evicted empty.
\<close>

theorem basic_scenario:
  "map_option observe (run_trace basic_arrivals (new_ReorderBuffer 8)) =
     Some [(0, 0, 0), (0, 0, 0), (0, 0, 0), (0, 0, 0), (0, 0, 0), (0, 1, 0), (0, 2, 0),
           (0, 3, 0), (0, 4, 0), (0, 4, 0), (0, 5, 0), (0, 5, 0), (0, 6, 0), (0, 6, 0),
           (0, 7, 0), (0, 7, 0)]"
  by code_simp

text \<open>The claim as stated fails: the drops are 7 after the last arrival.\<close>

theorem basic_scenario_drops:
  "map_option drops (run basic_arrivals (new_ReorderBuffer 8)) = Some 7"
  by code_simp

subsection \<open>Well-formed buffers stay well-formed\<close>

lemma to_int32_id: "0 \<le> i \<Longrightarrow> i < 2147483648 \<Longrightarrow> to_int32 i = i"
  unfolding to_int32_def by (simp add: sint_sbintrunc' signed_take_bit_int_eq_self)

lemma smod_nonneg: "0 \<le> a \<Longrightarrow> 0 < b \<Longrightarrow> (a::int) smod b = a mod b"
  by (simp add: smod_int_alt_def sgn_if)

lemma uint_len: "0 \<le> L \<Longrightarrow> L < 2147483648 \<Longrightarrow> uint (word_of_int L :: u64) = L"
  by (simp add: uint_word_of_int take_bit_int_eq_self)

lemma idx_for_uint:
  assumes "wf s"
  shows "idx_for s sn = uint (word_of_int (m_tail_idx s) + (sn - m_tail_sn s) :: u64) mod m_buffer_len s"
proof -
  let ?L = "m_buffer_len s"
  let ?x = "(word_of_int (m_tail_idx s) + (sn - m_tail_sn s)) :: u64"
  have L: "uint (word_of_int ?L :: u64) = ?L" using assms by (simp add: wf_def uint_len)
  have e: "uint (?x mod word_of_int ?L) = uint ?x mod ?L" by (simp add: uint_mod L)
  have b: "0 \<le> uint ?x mod ?L" "uint ?x mod ?L < ?L" using assms by (simp_all add: wf_def)
  moreover have "?L < 2147483648" using assms by (simp add: wf_def)
  ultimately have "uint ?x mod ?L < 2147483648" by linarith
  with b(1) have "to_int32 (uint ?x mod ?L) = uint ?x mod ?L"
    by (rule to_int32_id)
  with e show ?thesis by (simp add: idx_for_def)
qed

lemma idx_for_range:
  assumes "wf s"
  shows "0 \<le> idx_for s sn" "idx_for s sn < m_buffer_len s"
  using assms by (simp_all add: idx_for_uint wf_def)

lemma idx_for_tail:
  assumes "wf s"
  shows "idx_for s (m_tail_sn s) = m_tail_idx s"
  using assms by (simp add: idx_for_uint wf_def uint_len)

lemma wf_mark: "wf s \<Longrightarrow> wf (mark sn s)"
  using idx_for_range [of s sn]
  by (auto simp: wf_def mark_def Let_def)

lemma wf_spill_iter:
  assumes "wf s" "spill_iter (s, lb, cb) = (s', lb', cb')"
  shows "wf s'"
proof -
  have "0 \<le> (m_tail_idx s + 1) smod m_buffer_len s" "(m_tail_idx s + 1) smod m_buffer_len s < m_buffer_len s"
    using assms(1) by (simp_all add: wf_def smod_nonneg)
  with assms show ?thesis
    by (cases "m_buffer s ! nat (m_tail_idx s) = 0") (auto simp: spill_iter_def Let_def wf_def)
qed

lemma wf_spill_loop:
  assumes "wf s" "spill_loop n (s, lb, cb) = (s', lb', cb')"
  shows "wf s'"
  using assms
proof (induction n arbitrary: s lb cb)
  case 0 then show ?case by simp
next
  case (Suc n)
  obtain s1 lb1 cb1 where it: "spill_iter (s, lb, cb) = (s1, lb1, cb1)"
    by (cases "spill_iter (s, lb, cb)") auto
  with Suc.prems have "spill_loop n (s1, lb1, cb1) = (s', lb', cb')" by simp
  from Suc.IH [OF wf_spill_iter [OF Suc.prems(1) it] this] show ?case .
qed

text \<open>The three ways \<open>spill\<close> returns a result, as a case rule.\<close>

lemma spill_cases:
  assumes "spill sn s = Some (r, s')"
  obtains (patch) s2 lb cb d0 where
      "d0 = to_int32 (uint (sn - highest_possible_sn s))" "0 < d0" "m_buffer_len s \<le> d0"
      "spill_loop (nat (m_buffer_len s)) (s\<lparr>m_drops := m_drops s + word_of_int (d0 - 1)\<rparr>, 0, 0) = (s2, lb, cb)"
      "d0 - 1 \<noteq> 0"
      "s' = s2\<lparr>m_tail_sn := sn, m_head_idx := m_tail_idx s2,
                m_buffer := (m_buffer s2)[nat (m_tail_idx s2) := m_buffer s2 ! nat (m_tail_idx s2) + 1]\<rparr>"
      "r = (if cb \<noteq> 0 then max lb (to_int32 (cb + (d0 - 1))) else max lb (d0 - 1))"
    | (patch0) s2 lb cb d0 where
      "d0 = to_int32 (uint (sn - highest_possible_sn s))" "0 < d0" "m_buffer_len s \<le> d0"
      "spill_loop (nat (m_buffer_len s)) (s\<lparr>m_drops := m_drops s + word_of_int (d0 - 1)\<rparr>, 0, 0) = (s2, lb, cb)"
      "d0 - 1 = 0"
      "s' = mark sn s2"
      "r = (if cb \<noteq> 0 then max lb (to_int32 cb) else max lb 0)"
    | (normal) s2 lb cb d0 where
      "d0 = to_int32 (uint (sn - highest_possible_sn s))" "0 < d0" "d0 < m_buffer_len s"
      "spill_loop (nat (min (occupancy s) d0)) (s, 0, 0) = (s2, lb, cb)"
      "s' = mark sn s2"
      "r = (if cb \<noteq> 0 then max lb (to_int32 cb) else max lb 0)"
proof -
  let ?d0 = "to_int32 (uint (sn - highest_possible_sn s))"
  from assms have pos: "0 < ?d0" by (auto simp: spill_def Let_def split: if_splits)
  show thesis
  proof (cases "m_buffer_len s \<le> ?d0")
    case True
    obtain s2 lb cb where lp: "spill_loop (nat (m_buffer_len s)) (s\<lparr>m_drops := m_drops s + word_of_int (?d0 - 1)\<rparr>, 0, 0) = (s2, lb, cb)"
      by (cases "spill_loop (nat (m_buffer_len s)) (s\<lparr>m_drops := m_drops s + word_of_int (?d0 - 1)\<rparr>, 0, 0)") auto
    show thesis
    proof (cases "?d0 - 1 = 0")
      case z: True
      from assms pos True lp z have "s' = mark sn s2" "r = (if cb \<noteq> 0 then max lb (to_int32 cb) else max lb 0)"
        by (auto simp: spill_def Let_def)
      with patch0 [OF refl pos True lp z] show thesis by blast
    next
      case nz: False
      from assms pos True lp nz have "s' = s2\<lparr>m_tail_sn := sn, m_head_idx := m_tail_idx s2,
                m_buffer := (m_buffer s2)[nat (m_tail_idx s2) := m_buffer s2 ! nat (m_tail_idx s2) + 1]\<rparr>"
         "r = (if cb \<noteq> 0 then max lb (to_int32 (cb + (?d0 - 1))) else max lb (?d0 - 1))"
        by (auto simp: spill_def Let_def)
      with patch [OF refl pos True lp nz] show thesis by blast
    qed
  next
    case False
    obtain s2 lb cb where lp: "spill_loop (nat (min (occupancy s) ?d0)) (s, 0, 0) = (s2, lb, cb)"
      by (cases "spill_loop (nat (min (occupancy s) ?d0)) (s, 0, 0)") auto
    from assms pos False lp have "s' = mark sn s2" "r = (if cb \<noteq> 0 then max lb (to_int32 cb) else max lb 0)"
      by (auto simp: spill_def Let_def)
    with normal [OF refl pos _ lp] False show thesis by auto
  qed
qed

lemma wf_spill:
  assumes "wf s" "spill sn s = Some (r, s')"
  shows "wf s'"
  using assms(2)
proof (cases rule: spill_cases)
  case (patch s2 lb cb d0)
  have "wf (s\<lparr>m_drops := m_drops s + word_of_int (d0 - 1)\<rparr>)" using assms(1) by (simp add: wf_def)
  from wf_spill_loop [OF this patch(4)] have "wf s2" .
  then show ?thesis by (simp add: patch(6) wf_def)
next
  case (patch0 s2 lb cb d0)
  have "wf (s\<lparr>m_drops := m_drops s + word_of_int (d0 - 1)\<rparr>)" using assms(1) by (simp add: wf_def)
  from wf_spill_loop [OF this patch0(4)] have "wf s2" .
  then show ?thesis by (simp add: patch0(6) wf_mark)
next
  case (normal s2 lb cb d0)
  from wf_spill_loop [OF assms(1) normal(4)] have "wf s2" .
  then show ?thesis by (simp add: normal(5) wf_mark)
qed

text \<open>The four ways \<open>addPacket\<close> returns a result, as a case rule.\<close>

lemma booked_eq:
  "booked sn f p c s = s\<lparr>m_largest_received_sn := max sn (m_largest_received_sn s),
          m_smallest_received_sn := min sn (m_smallest_received_sn s),
          m_port_seq_map := m_port_seq_map (booked sn f p c s)\<rparr>"
proof -
  let ?s2 = "s\<lparr>m_largest_received_sn := max sn (m_largest_received_sn s),
          m_smallest_received_sn := min sn (m_smallest_received_sn s)\<rparr>"
  obtain len fbc s3 where cf: "check_for_burst_error f p c ?s2 = (len, fbc, s3)"
    by (cases "check_for_burst_error f p c ?s2") auto
  from cfbe_state [OF cf] cf show ?thesis by (simp add: booked_def)
qed

lemma booked_fields [simp]:
  "m_buffer (booked sn f p c s) = m_buffer s"
  "m_buffer_len (booked sn f p c s) = m_buffer_len s"
  "m_tail_idx (booked sn f p c s) = m_tail_idx s"
  "m_head_idx (booked sn f p c s) = m_head_idx s"
  "m_tail_sn (booked sn f p c s) = m_tail_sn s"
  "m_last_spilled_good_sn (booked sn f p c s) = m_last_spilled_good_sn s"
  "m_drops (booked sn f p c s) = m_drops s"
  "m_dups (booked sn f p c s) = m_dups s"
  "good_departures (booked sn f p c s) = good_departures s"
  "m_largest_received_sn (booked sn f p c s) = max sn (m_largest_received_sn s)"
  "m_smallest_received_sn (booked sn f p c s) = min sn (m_smallest_received_sn s)"
  by (subst booked_eq, simp)+

lemma booked_window [simp]:
  "occupancy (booked sn f p c s) = occupancy s"
  "lowest_possible_sn (booked sn f p c s) = lowest_possible_sn s"
  "highest_possible_sn (booked sn f p c s) = highest_possible_sn s"
  "idx_for (booked sn f p c s) x = idx_for s x"
  "wf (booked sn f p c s) = wf s"
  by (subst booked_eq, simp add: wf_def)+

lemma addPacket_cases:
  assumes "addPacket sn f p l c s = Some (r, l', c', s')"
  obtains (first) "m_tail_sn s = 0" "r = 0"
      "s' = (booked sn f p c s)\<lparr>m_tail_sn := sn, m_head_idx := m_tail_idx s,
               m_buffer := (m_buffer s)[nat (m_tail_idx s) := 1]\<rparr>"
    | (stale) "m_tail_sn s \<noteq> 0" "sn < lowest_possible_sn s" "r = 0" "s' = booked sn f p c s"
    | (fits) "m_tail_sn s \<noteq> 0" "lowest_possible_sn s \<le> sn" "sn \<le> highest_possible_sn s" "r = 0"
        "s' = mark sn (booked sn f p c s)"
    | (spills) r0 where "m_tail_sn s \<noteq> 0" "lowest_possible_sn s \<le> sn" "highest_possible_sn s < sn"
        "spill sn (booked sn f p c s) = Some (r0, s')" "r = max 0 r0"
proof -
  let ?s2 = "s\<lparr>m_largest_received_sn := max sn (m_largest_received_sn s),
          m_smallest_received_sn := min sn (m_smallest_received_sn s)\<rparr>"
  obtain len fbc s3 where cf: "check_for_burst_error f p c ?s2 = (len, fbc, s3)"
    by (cases "check_for_burst_error f p c ?s2") auto
  then have s3: "s3 = booked sn f p c s" by (simp add: booked_def)
  have flds: "m_tail_sn s3 = m_tail_sn s" "lowest_possible_sn s3 = lowest_possible_sn s"
    "highest_possible_sn s3 = highest_possible_sn s" "m_tail_idx s3 = m_tail_idx s"
    "m_buffer s3 = m_buffer s"
    by (simp_all add: s3)
  consider "m_tail_sn s = 0" | "m_tail_sn s \<noteq> 0" "sn < lowest_possible_sn s"
    | "m_tail_sn s \<noteq> 0" "lowest_possible_sn s \<le> sn" "sn \<le> highest_possible_sn s"
    | "m_tail_sn s \<noteq> 0" "lowest_possible_sn s \<le> sn" "highest_possible_sn s < sn"
    by (meson not_le)
  then show thesis
  proof cases
    case 1
    with assms cf flds have "r = 0" "s' = s3\<lparr>m_tail_sn := sn, m_head_idx := m_tail_idx s,
               m_buffer := (m_buffer s)[nat (m_tail_idx s) := 1]\<rparr>"
      by (auto simp: addPacket_def Let_def)
    with first 1 s3 show ?thesis by simp
  next
    case 2
    with assms cf flds have "r = 0" "s' = s3"
      by (auto simp: addPacket_def Let_def)
    with stale 2 s3 show ?thesis by simp
  next
    case 3
    with assms cf flds have "r = 0" "s' = mark sn s3"
      by (auto simp: addPacket_def Let_def split: if_splits)
    with fits 3 s3 show ?thesis by simp
  next
    case 4
    with assms cf flds obtain r0 where "spill sn s3 = Some (r0, s')" "r = max 0 r0"
      by (auto simp: addPacket_def Let_def split: if_splits option.splits)
    with spills 4 s3 show ?thesis by simp
  qed
qed

lemma wf_addPacket:
  assumes "wf s" "addPacket sn f p l c s = Some (r, l', c', s')"
  shows "wf s'"
  using assms(2)
proof (cases rule: addPacket_cases)
  case first
  with assms(1) show ?thesis by (simp add: wf_def)
next
  case stale
  with assms(1) show ?thesis by simp
next
  case fits
  with assms(1) show ?thesis by (simp add: wf_mark)
next
  case (spills r0)
  with assms(1) wf_spill [OF _ spills(4)] show ?thesis by simp
qed

lemma wf_new: "0 < len \<Longrightarrow> len < 2147483648 \<Longrightarrow> wf (new_ReorderBuffer len)"
  by (simp add: wf_def new_ReorderBuffer_def)

lemma wf_admit: "wf s \<Longrightarrow> admit a s = Some (r, s') \<Longrightarrow> wf s'"
  by (cases a) (auto simp: admit_def split: option.splits dest: wf_addPacket)

lemma wf_run: "wf s \<Longrightarrow> run as s = Some s' \<Longrightarrow> wf s'"
proof (induction as arbitrary: s)
  case Nil
  then show ?case by simp
next
  case (Cons a as)
  from Cons.prems(2) obtain r s1 where "admit a s = Some (r, s1)" "run as s1 = Some s'"
    by (auto split: option.splits)
  with Cons.IH [of s1] wf_admit [OF Cons.prems(1)] show ?case by blast
qed

lemma run_append:
  "run (as @ bs) s = (case run as s of None \<Rightarrow> None | Some s' \<Rightarrow> run bs s')"
  by (induction as arbitrary: s) (auto split: option.splits)

subsection \<open>The calls of a run, case by case\<close>

lemma admit_cases:
  assumes "admit (sn, f, p) s = Some (r, s')"
  obtains (first) "m_tail_sn s = 0" "r = 0"
      "s' = (bk sn f p s)\<lparr>m_tail_sn := sn, m_head_idx := m_tail_idx s,
               m_buffer := (m_buffer s)[nat (m_tail_idx s) := 1]\<rparr>"
    | (stale) "m_tail_sn s \<noteq> 0" "sn < lowest_possible_sn s" "r = 0" "s' = bk sn f p s"
    | (fits) "m_tail_sn s \<noteq> 0" "lowest_possible_sn s \<le> sn" "sn \<le> highest_possible_sn s" "r = 0"
        "s' = mark sn (bk sn f p s)" "0 \<le> idx_for s sn" "idx_for s sn < m_buffer_len s"
    | (spills) r0 where "m_tail_sn s \<noteq> 0" "lowest_possible_sn s \<le> sn" "highest_possible_sn s < sn"
        "spill sn (bk sn f p s) = Some (r0, s')" "r = max 0 r0"
proof -
  from assms obtain l' c' where ap: "addPacket sn f p (Some 0) (Some 0) s = Some (r, l', c', s')"
    by (auto simp: admit_def split: option.splits)
  then show thesis
  proof (cases rule: addPacket_cases)
    case first
    then show ?thesis using that(1) by simp
  next
    case stale
    then show ?thesis using that(2) by simp
  next
    case fits
    let ?s2 = "s\<lparr>m_largest_received_sn := max sn (m_largest_received_sn s),
          m_smallest_received_sn := min sn (m_smallest_received_sn s)\<rparr>"
    obtain len fbc s3 where cf: "check_for_burst_error f p (Some 0) ?s2 = (len, fbc, s3)"
      by (cases "check_for_burst_error f p (Some 0) ?s2") auto
    then have s3: "s3 = bk sn f p s" by (simp add: booked_def)
    have "0 \<le> idx_for s sn \<and> idx_for s sn < m_buffer_len s"
      using ap cf fits(1,2,3) unfolding s3
      by (auto simp: addPacket_def Let_def split: if_splits)
    with fits show ?thesis using that(3) by simp
  next
    case (spills r0)
    then show ?thesis using that(4) by simp
  qed
qed

lemma admit_firstI:
  "m_tail_sn s = 0 \<Longrightarrow>
   admit (sn, f, p) s = Some (0, (bk sn f p s)\<lparr>m_tail_sn := sn, m_head_idx := m_tail_idx s,
               m_buffer := (m_buffer s)[nat (m_tail_idx s) := 1]\<rparr>)"
proof -
  assume a: "m_tail_sn s = 0"
  let ?s2 = "s\<lparr>m_largest_received_sn := max sn (m_largest_received_sn s),
          m_smallest_received_sn := min sn (m_smallest_received_sn s)\<rparr>"
  obtain len fbc s3 where cf: "check_for_burst_error f p (Some 0) ?s2 = (len, fbc, s3)"
    by (cases "check_for_burst_error f p (Some 0) ?s2") auto
  then have s3: "s3 = bk sn f p s" by (simp add: booked_def)
  show ?thesis using a cf unfolding s3
    by (simp add: admit_def addPacket_def Let_def)
qed

lemma admit_staleI:
  "m_tail_sn s \<noteq> 0 \<Longrightarrow> sn < lowest_possible_sn s \<Longrightarrow> admit (sn, f, p) s = Some (0, bk sn f p s)"
proof -
  assume a: "m_tail_sn s \<noteq> 0" "sn < lowest_possible_sn s"
  let ?s2 = "s\<lparr>m_largest_received_sn := max sn (m_largest_received_sn s),
          m_smallest_received_sn := min sn (m_smallest_received_sn s)\<rparr>"
  obtain len fbc s3 where cf: "check_for_burst_error f p (Some 0) ?s2 = (len, fbc, s3)"
    by (cases "check_for_burst_error f p (Some 0) ?s2") auto
  then have s3: "s3 = bk sn f p s" by (simp add: booked_def)
  show ?thesis using a cf unfolding s3
    by (simp add: admit_def addPacket_def Let_def)
qed

lemma admit_fitsI:
  assumes "m_tail_sn s \<noteq> 0" "lowest_possible_sn s \<le> sn" "sn \<le> highest_possible_sn s"
    "0 \<le> idx_for s sn" "idx_for s sn < m_buffer_len s"
  shows "admit (sn, f, p) s = Some (0, mark sn (bk sn f p s))"
proof -
  let ?s2 = "s\<lparr>m_largest_received_sn := max sn (m_largest_received_sn s),
          m_smallest_received_sn := min sn (m_smallest_received_sn s)\<rparr>"
  obtain len fbc s3 where cf: "check_for_burst_error f p (Some 0) ?s2 = (len, fbc, s3)"
    by (cases "check_for_burst_error f p (Some 0) ?s2") auto
  then have s3: "s3 = bk sn f p s" by (simp add: booked_def)
  have "\<not> sn < lowest_possible_sn s" using assms(2) by simp
  then show ?thesis using assms cf unfolding s3
    by (simp add: admit_def addPacket_def Let_def)
qed

lemma admit_spillsI:
  assumes "m_tail_sn s \<noteq> 0" "lowest_possible_sn s \<le> sn" "highest_possible_sn s < sn"
    "spill sn (bk sn f p s) = Some (r0, s')"
  shows "admit (sn, f, p) s = Some (max 0 r0, s')"
proof -
  let ?s2 = "s\<lparr>m_largest_received_sn := max sn (m_largest_received_sn s),
          m_smallest_received_sn := min sn (m_smallest_received_sn s)\<rparr>"
  obtain len fbc s3 where cf: "check_for_burst_error f p (Some 0) ?s2 = (len, fbc, s3)"
    by (cases "check_for_burst_error f p (Some 0) ?s2") auto
  then have s3: "s3 = bk sn f p s" by (simp add: booked_def)
  have "\<not> sn < lowest_possible_sn s" "\<not> sn \<le> highest_possible_sn s" using assms(2,3) by simp_all
  then show ?thesis using assms cf unfolding s3
    by (simp add: admit_def addPacket_def Let_def)
qed

subsection \<open>The out-pointers do not influence the window\<close>

text \<open>
  \<open>addPacket\<close> as a function of the booked buffer; the returned burst length and the
  resulting buffer are the same whatever the caller passes for the two out-pointers. So
  \<open>admit\<close> stands for every call of \<open>addPacket\<close> as far as the window is concerned.
\<close>

lemma cfbe_pointer_free:
  "snd (snd (check_for_burst_error f p c s)) = snd (snd (check_for_burst_error f p c' s))"
  by (auto simp: check_for_burst_error_def Let_def split: option.splits)

lemma booked_pointer_free: "booked sn f p c s = booked sn f p c' s"
  unfolding booked_def by (rule cfbe_pointer_free)

lemma addPacket_booked:
  "window_result (addPacket sn f p l c s) =
     (let b = booked sn f p c s in
      if m_tail_sn s = 0 then
        Some (0, b\<lparr>m_tail_sn := sn, m_head_idx := m_tail_idx s,
                    m_buffer := (m_buffer s)[nat (m_tail_idx s) := 1]\<rparr>)
      else if sn < lowest_possible_sn s then Some (0, b)
      else if sn \<le> highest_possible_sn s then
        (if 0 \<le> idx_for s sn \<and> idx_for s sn < m_buffer_len s then Some (0, mark sn b) else None)
      else map_option (\<lambda>(r, s'). (max 0 r, s')) (spill sn b))"
proof -
  let ?s2 = "s\<lparr>m_largest_received_sn := max sn (m_largest_received_sn s),
          m_smallest_received_sn := min sn (m_smallest_received_sn s)\<rparr>"
  obtain len fbc s3 where cf: "check_for_burst_error f p c ?s2 = (len, fbc, s3)"
    by (cases "check_for_burst_error f p c ?s2") auto
  then have s3: "s3 = booked sn f p c s" by (simp add: booked_def)
  show ?thesis
    using cf unfolding s3
    by (auto simp: addPacket_def window_result_def Let_def split: option.splits)
qed

lemma addPacket_pointer_free:
  "window_result (addPacket sn f p l c s) = window_result (addPacket sn f p l' c' s)"
  unfolding addPacket_booked booked_pointer_free [of sn f p c s c'] ..

lemma admit_window_result: "admit (sn, f, p) s = window_result (addPacket sn f p l c s)"
proof -
  have "admit (sn, f, p) s = window_result (addPacket sn f p (Some 0) (Some 0) s)"
    by (auto simp: admit_def window_result_def split: option.splits)
  then show ?thesis using addPacket_pointer_free by simp
qed

subsection \<open>The received range along a run\<close>

text \<open>
  After a run, \<^verbatim>\<open>m_largest_received_sn\<close> is the maximum of the offered sequence numbers
  (and of its initial value 0), and \<^verbatim>\<open>m_smallest_received_sn\<close> the minimum of the offered
  sequence numbers and of its initial value 0: it stays 0.
\<close>

lemma admit_received:
  assumes "admit (sn, f, p) s = Some (r, s')"
  shows "m_largest_received_sn s' = max sn (m_largest_received_sn s)"
    and "m_smallest_received_sn s' = min sn (m_smallest_received_sn s)"
  using assms by (cases rule: admit_cases; auto simp: mark_frame dest: spill_frame)+

lemma run_received:
  assumes "run as s = Some s'"
  shows "m_largest_received_sn s' = fold max (map fst as) (m_largest_received_sn s) \<and>
         m_smallest_received_sn s' = fold min (map fst as) (m_smallest_received_sn s)"
  using assms
proof (induction as arbitrary: s)
  case Nil
  then show ?case by simp
next
  case (Cons a as)
  obtain sn f p where a: "a = (sn, f, p)" by (cases a) auto
  from Cons.prems obtain r s1 where ad: "admit (sn, f, p) s = Some (r, s1)"
    and rest: "run as s1 = Some s'"
    by (auto simp: a split: option.splits)
  from Cons.IH [OF rest] admit_received [OF ad] show ?case by (simp add: a)
qed

lemma fold_min_zero: "fold min xs (0::u64) = 0"
  by (induction xs) simp_all

lemma smallest_received_sn_stays_zero:
  "run as (new_ReorderBuffer len) = Some s \<Longrightarrow> m_smallest_received_sn s = 0"
  using run_received [of as "new_ReorderBuffer len" s]
  by (simp add: new_ReorderBuffer_def fold_min_zero)

subsection \<open>Extra copies of a packet\<close>

lemma window_agree_funs:
  assumes "window_agree s t"
  shows "occupancy t = occupancy s" "lowest_possible_sn t = lowest_possible_sn s"
    "highest_possible_sn t = highest_possible_sn s" "idx_for t x = idx_for s x"
  using assms
  by (simp_all add: window_agree_def occupancy_def lowest_possible_sn_def
      highest_possible_sn_def idx_for_def Let_def)

lemma u8_add_no_wrap:
  fixes c :: u8
  assumes "unat c + k \<le> 255"
  shows "unat (c + of_nat k) = unat c + k"
proof -
  have "unat (c + of_nat k) = (unat c + unat (of_nat k :: u8)) mod 2 ^ LENGTH(8)"
    by (rule unat_word_ariths(1))
  also have "\<dots> = (unat c + k mod 2 ^ LENGTH(8)) mod 2 ^ LENGTH(8)"
    by (simp only: unat_of_nat)
  also have "\<dots> = (unat c + k) mod 2 ^ LENGTH(8)"
    by (rule mod_add_right_eq)
  finally show ?thesis using assms by simp
qed

lemma u8_dups_shift:
  fixes c :: u8
  assumes "c \<noteq> 0" "unat c + k \<le> 255"
  shows "c + of_nat k \<noteq> 0"
    and "(word_of_int (uint (c + of_nat k) - 1) :: u64) = word_of_int (uint c - 1) + of_nat k"
proof -
  have u: "unat (c + of_nat k) = unat c + k" using assms(2) by (rule u8_add_no_wrap)
  have pos: "0 < unat c" using assms(1) by (simp add: unat_gt_0)
  have "0 < unat (c + of_nat k)" unfolding u using pos by simp
  then show "c + of_nat k \<noteq> 0" by (simp add: unat_gt_0)
  have "uint (c + of_nat k) = int (unat (c + of_nat k))" by (rule uint_nat)
  also have "\<dots> = int (unat c) + int k" unfolding u by (rule of_nat_add)
  also have "int (unat c) = uint c" by (rule uint_nat [symmetric])
  finally have e: "uint (c + of_nat k) = uint c + int k" .
  have "(word_of_int (uint c + int k - 1) :: u64) = word_of_int (uint c - 1) + of_nat k"
    by (simp add: algebra_simps)
  then show "(word_of_int (uint (c + of_nat k) - 1) :: u64) = word_of_int (uint c - 1) + of_nat k"
    unfolding e .
qed


lemma mark_bump:
  "mark sn s =
     (if sn > m_tail_sn s + word_of_int (occupancy s) - 1
      then (bump (nat (idx_for s sn)) s)\<lparr>m_head_idx := idx_for s sn\<rparr>
      else bump (nat (idx_for s sn)) s)"
  by (simp add: mark_def bump_def Let_def)

lemma mark_buffer: "m_buffer (mark sn s) = m_buffer (bump (nat (idx_for s sn)) s)"
  by (simp add: mark_bump)

lemma head_settled_mark: "head_settled (mark sn s) sn"
proof (cases "sn > m_tail_sn s + word_of_int (occupancy s) - 1")
  case True
  then have "m_head_idx (mark sn s) = idx_for s sn" by (simp add: mark_def Let_def)
  moreover have "idx_for (mark sn s) sn = idx_for s sn" by (simp add: mark_def Let_def idx_for_def)
  ultimately show ?thesis by (simp add: head_settled_def)
next
  case False
  then have "occupancy (mark sn s) = occupancy s" "m_tail_sn (mark sn s) = m_tail_sn s"
    by (simp_all add: mark_def Let_def occupancy_def)
  with False show ?thesis by (simp add: head_settled_def not_less)
qed

lemma head_settled_at_tail:
  assumes "wf s" "m_head_idx s = m_tail_idx s" "m_tail_sn s = sn"
  shows "head_settled s sn"
  using idx_for_tail [OF assms(1)] assms(2,3) by (simp add: head_settled_def)

lemma delivered_head_settled:
  assumes "wf s0" "admit (sn, f, p) s0 = Some (r, s1)" "m_tail_sn s1 \<noteq> 0"
    "lowest_possible_sn s1 \<le> sn"
  shows "head_settled s1 sn"
proof -
  have w1: "wf s1" using assms(1,2) by (rule wf_admit)
  from assms(2) show ?thesis
  proof (cases rule: admit_cases)
    case first
    show ?thesis by (rule head_settled_at_tail [OF w1]) (simp_all add: first(3))
  next
    case stale
    with assms(4) show ?thesis by simp
  next
    case fits
    then show ?thesis by (simp add: head_settled_mark)
  next
    case (spills r0)
    from spills(4) show ?thesis
    proof (cases rule: spill_cases)
      case (patch s2 lb cb d0)
      show ?thesis by (rule head_settled_at_tail [OF w1]) (simp_all add: patch(6))
    next
      case (patch0 s2 lb cb d0)
      then show ?thesis by (simp add: head_settled_mark)
    next
      case (normal s2 lb cb d0)
      then show ?thesis by (simp add: head_settled_mark)
    qed
  qed
qed

lemma extra_copy:
  assumes "wf s" "m_tail_sn s \<noteq> 0" "lowest_possible_sn s \<le> sn" "sn \<le> highest_possible_sn s"
    "head_settled s sn"
  shows "admit (sn, f, p) s = Some (0, bump (nat (idx_for s sn)) (bk sn f p s))"
proof -
  note r = idx_for_range [OF assms(1), of sn]
  have "mark sn (bk sn f p s) = bump (nat (idx_for s sn)) (bk sn f p s)"
    using assms(5) by (auto simp: mark_bump head_settled_def bump_def)
  with admit_fitsI [OF assms(2,3,4) r, of f p] show ?thesis by simp
qed


lemma copies_in_slot_agree: "copies_in_slot i j c s t \<Longrightarrow> window_agree s t"
  by (simp add: copies_in_slot_def)

lemma copies_none:
  "copies_in_slot i 0 c s t \<longleftrightarrow>
     window_agree s t \<and> m_dups t = m_dups s + of_nat c \<and> m_buffer t = m_buffer s"
  by (simp add: copies_in_slot_def)

lemma spill_iter_tail_idx:
  assumes "spill_iter (s, lb, cb) = (s', lb', cb')"
  shows "m_tail_idx s' = (m_tail_idx s + 1) smod m_buffer_len s"
  using assms
  by (cases "m_buffer s ! nat (m_tail_idx s) = 0") (auto simp: spill_iter_def Let_def)

lemma spill_iter_none:
  assumes "copies_in_slot i 0 c s t" "spill_iter (s, lb, cb) = (s', lb', cb')"
  shows "\<exists>t'. spill_iter (t, lb, cb) = (t', lb', cb') \<and> copies_in_slot i 0 c s' t'"
proof -
  from assms(1) have ag: "window_agree s t" and d: "m_dups t = m_dups s + of_nat c"
    and bt: "m_buffer t = m_buffer s"
    by (simp_all add: copies_none)
  show ?thesis
  proof (cases "m_buffer s ! nat (m_tail_idx s) = 0")
    case True
    with assms(2) ag d bt show ?thesis
      by (auto simp: spill_iter_def Let_def copies_none window_agree_def)
  next
    case False
    with assms(2) ag d bt show ?thesis
      by (auto simp: spill_iter_def Let_def copies_none window_agree_def)
  qed
qed

lemma spill_iter_some:
  assumes "copies_in_slot i j c s t" "0 < j" "spill_iter (s, lb, cb) = (s', lb', cb')"
  shows "\<exists>t'. spill_iter (t, lb, cb) = (t', lb', cb') \<and>
               (if nat (m_tail_idx s) = i then copies_in_slot i 0 (c + j) s' t'
                else copies_in_slot i j c s' t')"
proof -
  from assms(1,2) have ag: "window_agree s t" and d: "m_dups t = m_dups s + of_nat c"
    and i: "i < length (m_buffer s)" and nz: "m_buffer s ! i \<noteq> 0"
    and room: "unat (m_buffer s ! i) + j \<le> 255"
    and bt: "m_buffer t = (m_buffer s)[i := m_buffer s ! i + of_nat j]"
    by (simp_all add: copies_in_slot_def)
  let ?k = "nat (m_tail_idx s)"
  have tj: "nat (m_tail_idx t) = ?k" using ag by (simp add: window_agree_def)
  show ?thesis
  proof (cases "?k = i")
    case True
    have bti: "m_buffer t ! ?k = m_buffer s ! i + of_nat j" using bt i True by simp
    note sh = u8_dups_shift [OF nz room]
    have zero: "(m_buffer t)[?k := 0] = (m_buffer s)[?k := 0]" using bt True by simp
    from assms(3) nz True
    have s': "s' = s\<lparr>m_buffer := (m_buffer s)[?k := 0],
                   m_dups := m_dups s + word_of_int (uint (m_buffer s ! i) - 1),
                   m_last_spilled_good_sn := m_tail_sn s,
                   good_departures := good_departures s + 1,
                   m_tail_idx := (m_tail_idx s + 1) smod m_buffer_len s,
                   m_tail_sn := m_tail_sn s + 1\<rparr>" "lb' = max lb 0" "cb' = 0"
      by (auto simp: spill_iter_def Let_def)
    let ?t' = "t\<lparr>m_buffer := (m_buffer t)[?k := 0],
                   m_dups := m_dups t + word_of_int (uint (m_buffer t ! ?k) - 1),
                   m_last_spilled_good_sn := m_tail_sn t,
                   good_departures := good_departures t + 1,
                   m_tail_idx := (m_tail_idx t + 1) smod m_buffer_len t,
                   m_tail_sn := m_tail_sn t + 1\<rparr>"
    have "spill_iter (t, lb, cb) = (?t', lb', cb')"
      using sh(1) bti tj s'(2,3) by (simp add: spill_iter_def Let_def)
    moreover have "copies_in_slot i 0 (c + j) s' ?t'"
      using ag d sh(2) bti zero tj
      by (simp add: copies_none window_agree_def s'(1))
    ultimately show ?thesis using True by auto
  next
    case False
    have btj: "m_buffer t ! ?k = m_buffer s ! ?k" using bt False by simp
    have upd: "(m_buffer t)[?k := 0] = ((m_buffer s)[?k := 0])[i := ((m_buffer s)[?k := 0]) ! i + of_nat j]"
      using bt False by (simp add: list_update_swap)
    have keep: "((m_buffer s)[?k := 0]) ! i = m_buffer s ! i" using False by simp
    show ?thesis
    proof (cases "m_buffer s ! ?k = 0")
      case True
      from assms(3) True
      have s': "s' = s\<lparr>m_buffer := (m_buffer s)[?k := 0],
                   m_drops := m_drops s + 1,
                   m_tail_idx := (m_tail_idx s + 1) smod m_buffer_len s,
                   m_tail_sn := m_tail_sn s + 1\<rparr>" "lb' = lb"
        "cb' = (if m_tail_sn s > m_last_spilled_good_sn s + 2 then cb + 1 else cb)"
        by (auto simp: spill_iter_def Let_def)
      let ?t' = "t\<lparr>m_buffer := (m_buffer t)[?k := 0],
                   m_drops := m_drops t + 1,
                   m_tail_idx := (m_tail_idx t + 1) smod m_buffer_len t,
                   m_tail_sn := m_tail_sn t + 1\<rparr>"
      have "spill_iter (t, lb, cb) = (?t', lb', cb')"
        using True btj tj s'(2,3) ag by (simp add: spill_iter_def Let_def window_agree_def)
      moreover have "copies_in_slot i j c s' ?t'"
        using ag d i nz room upd keep tj
        by (simp add: copies_in_slot_def window_agree_def s'(1))
      ultimately show ?thesis using False by auto
    next
      case nzj: False
      from assms(3) nzj
      have s': "s' = s\<lparr>m_buffer := (m_buffer s)[?k := 0],
                   m_dups := m_dups s + word_of_int (uint (m_buffer s ! ?k) - 1),
                   m_last_spilled_good_sn := m_tail_sn s,
                   good_departures := good_departures s + 1,
                   m_tail_idx := (m_tail_idx s + 1) smod m_buffer_len s,
                   m_tail_sn := m_tail_sn s + 1\<rparr>" "lb' = max lb 0" "cb' = 0"
        by (auto simp: spill_iter_def Let_def)
      let ?t' = "t\<lparr>m_buffer := (m_buffer t)[?k := 0],
                   m_dups := m_dups t + word_of_int (uint (m_buffer t ! ?k) - 1),
                   m_last_spilled_good_sn := m_tail_sn t,
                   good_departures := good_departures t + 1,
                   m_tail_idx := (m_tail_idx t + 1) smod m_buffer_len t,
                   m_tail_sn := m_tail_sn t + 1\<rparr>"
      have "spill_iter (t, lb, cb) = (?t', lb', cb')"
        using nzj btj tj s'(2,3) by (simp add: spill_iter_def Let_def)
      moreover have "copies_in_slot i j c s' ?t'"
        using ag d i nz room upd keep tj btj
        by (simp add: copies_in_slot_def window_agree_def s'(1))
      ultimately show ?thesis using False by auto
    qed
  qed
qed

lemma spill_iter_copies:
  assumes "copies_in_slot i j c s t" "spill_iter (s, lb, cb) = (s', lb', cb')"
  shows "\<exists>t'. spill_iter (t, lb, cb) = (t', lb', cb') \<and>
               copies_in_slot i (if nat (m_tail_idx s) = i then 0 else j)
                 (if nat (m_tail_idx s) = i then c + j else c) s' t'"
proof (cases "j = 0")
  case True
  with spill_iter_none [of i c s t lb cb s' lb' cb'] assms show ?thesis by auto
next
  case False
  with spill_iter_some [of i j c s t lb cb s' lb' cb'] assms show ?thesis by auto
qed

lemma spill_loop_copies:
  assumes "copies_in_slot i j c s t" "spill_loop n (s, lb, cb) = (s', lb', cb')"
  shows "\<exists>t'. spill_loop n (t, lb, cb) = (t', lb', cb') \<and>
               copies_in_slot i
                 (if tail_visits i n (m_buffer_len s) (m_tail_idx s) then 0 else j)
                 (if tail_visits i n (m_buffer_len s) (m_tail_idx s) then c + j else c) s' t'"
  using assms
proof (induction n arbitrary: s t lb cb j c)
  case 0
  then show ?case by simp
next
  case (Suc n)
  obtain s1 lb1 cb1 where it: "spill_iter (s, lb, cb) = (s1, lb1, cb1)"
    by (cases "spill_iter (s, lb, cb)") auto
  with Suc.prems(2) have rest: "spill_loop n (s1, lb1, cb1) = (s', lb', cb')" by simp
  let ?j1 = "if nat (m_tail_idx s) = i then 0 else j"
  let ?c1 = "if nat (m_tail_idx s) = i then c + j else c"
  from spill_iter_copies [OF Suc.prems(1) it] obtain t1 where
    t1: "spill_iter (t, lb, cb) = (t1, lb1, cb1)" "copies_in_slot i ?j1 ?c1 s1 t1" by blast
  have f1: "m_tail_idx s1 = (m_tail_idx s + 1) smod m_buffer_len s" "m_buffer_len s1 = m_buffer_len s"
    using spill_iter_tail_idx [OF it] spill_iter_frame(2) [OF it] by simp_all
  let ?V = "tail_visits i n (m_buffer_len s) ((m_tail_idx s + 1) smod m_buffer_len s)"
  from Suc.IH [OF t1(2) rest] obtain t' where
    t': "spill_loop n (t1, lb1, cb1) = (t', lb', cb')"
    "copies_in_slot i (if ?V then 0 else ?j1) (if ?V then ?c1 + ?j1 else ?c1) s' t'"
    unfolding f1 by blast
  have "spill_loop (Suc n) (t, lb, cb) = (t', lb', cb')" using t1(1) t'(1) by simp
  moreover have "copies_in_slot i
                 (if tail_visits i (Suc n) (m_buffer_len s) (m_tail_idx s) then 0 else j)
                 (if tail_visits i (Suc n) (m_buffer_len s) (m_tail_idx s) then c + j else c) s' t'"
    using t'(2) by (cases "nat (m_tail_idx s) = i"; cases ?V; simp)
  ultimately show ?case by blast
qed

lemma bump_copies:
  assumes "copies_in_slot i j c s t" "j = 0 \<or> unat (m_buffer (bump k s) ! i) + j \<le> 255"
  shows "copies_in_slot i j c (bump k s) (bump k t)"
proof (cases "j = 0")
  case True
  with assms(1) show ?thesis by (simp add: copies_none window_agree_def bump_def)
next
  case False
  with assms have ag: "window_agree s t" and d: "m_dups t = m_dups s + of_nat c"
    and i: "i < length (m_buffer s)" and nz: "m_buffer s ! i \<noteq> 0"
    and room: "unat (m_buffer s ! i) + j \<le> 255"
    and bt: "m_buffer t = (m_buffer s)[i := m_buffer s ! i + of_nat j]"
    and room': "unat (m_buffer (bump k s) ! i) + j \<le> 255"
    by (simp_all add: copies_in_slot_def)
  have ag': "window_agree (bump k s) (bump k t)" using ag by (simp add: window_agree_def bump_def)
  show ?thesis
  proof (cases "k = i")
    case True
    have lt: "unat (m_buffer s ! i) < 255" using room False by simp
    have nz': "m_buffer s ! i + 1 \<noteq> 0"
    proof
      assume "m_buffer s ! i + 1 = 0"
      then have "m_buffer s ! i = - 1" by (simp add: eq_neg_iff_add_eq_0)
      then have "unat (m_buffer s ! i) = 255"
        by (simp add: unsigned_minus_1_eq_mask mask_eq_exp_minus_1)
      with lt show False by simp
    qed
    have "m_buffer (bump k t) = (m_buffer (bump k s))[i := m_buffer (bump k s) ! i + of_nat j]"
      using bt i True by (simp add: bump_def add.commute add.left_commute)
    with ag' d i nz' room' True show ?thesis
      by (simp add: copies_in_slot_def bump_def)
  next
    case False
    have "m_buffer (bump k t) = (m_buffer (bump k s))[i := m_buffer (bump k s) ! i + of_nat j]"
      using bt False by (simp add: bump_def list_update_swap)
    with ag' d i nz room False show ?thesis
      by (simp add: copies_in_slot_def bump_def)
  qed
qed

lemma copies_set_head:
  "copies_in_slot i j c s t \<Longrightarrow> copies_in_slot i j c (s\<lparr>m_head_idx := h\<rparr>) (t\<lparr>m_head_idx := h\<rparr>)"
  by (auto simp: copies_in_slot_def window_agree_def)

lemma copies_set_tail_sn:
  "copies_in_slot i j c s t \<Longrightarrow> copies_in_slot i j c (s\<lparr>m_tail_sn := x\<rparr>) (t\<lparr>m_tail_sn := x\<rparr>)"
  by (auto simp: copies_in_slot_def window_agree_def)

lemma copies_add_drops:
  "copies_in_slot i j c s t \<Longrightarrow>
   copies_in_slot i j c (s\<lparr>m_drops := m_drops s + x\<rparr>) (t\<lparr>m_drops := m_drops t + x\<rparr>)"
  by (auto simp: copies_in_slot_def window_agree_def)

lemma copies_booked:
  "copies_in_slot i j c s t \<Longrightarrow>
   copies_in_slot i j c (booked sn f p b s) (booked sn' f' p' b' t)"
  by (auto simp: copies_in_slot_def window_agree_def)

lemma mark_copies:
  assumes "copies_in_slot i j c s t" "j = 0 \<or> unat (m_buffer (mark sn s) ! i) + j \<le> 255"
  shows "copies_in_slot i j c (mark sn s) (mark sn t)"
proof -
  note ag = window_agree_funs [OF copies_in_slot_agree [OF assms(1)]]
  have ts: "m_tail_sn t = m_tail_sn s"
    using copies_in_slot_agree [OF assms(1)] by (simp add: window_agree_def)
  from assms(2) have "j = 0 \<or> unat (m_buffer (bump (nat (idx_for s sn)) s) ! i) + j \<le> 255"
    by (simp add: mark_buffer)
  from bump_copies [OF assms(1) this]
  have b: "copies_in_slot i j c (bump (nat (idx_for s sn)) s) (bump (nat (idx_for s sn)) t)" .
  show ?thesis
    unfolding mark_bump ag ts using b copies_set_head by simp
qed


lemma spill_copies:
  assumes "copies_in_slot i j c s t" "spill sn s = Some (r, s')"
    and "V = tail_visits i (spill_iterations sn s) (m_buffer_len s) (m_tail_idx s)"
    and "(if V then 0 else j) = 0 \<or> unat (m_buffer s' ! i) + (if V then 0 else j) \<le> 255"
  shows "\<exists>t'. spill sn t = Some (r, t') \<and>
               copies_in_slot i (if V then 0 else j) (if V then c + j else c) s' t'"
proof -
  let ?j' = "if V then 0 else j"
  let ?c' = "if V then c + j else c"
  note ag = copies_in_slot_agree [OF assms(1)]
  note fn = window_agree_funs [OF ag]
  have eqs: "m_buffer_len t = m_buffer_len s" "m_drops t = m_drops s"
    using ag by (simp_all add: window_agree_def)
  from assms(2) show ?thesis
  proof (cases rule: spill_cases)
    case (patch s2 lb cb d0)
    let ?x = "word_of_int (d0 - 1) :: u64"
    let ?s1 = "s\<lparr>m_drops := m_drops s + ?x\<rparr>"
    have n: "spill_iterations sn s = nat (m_buffer_len s)"
      using patch(1,3) by (simp add: spill_iterations_def Let_def)
    have V: "V = tail_visits i (nat (m_buffer_len s)) (m_buffer_len ?s1) (m_tail_idx ?s1)"
      using assms(3) n by simp
    from copies_add_drops [OF assms(1), of ?x]
    have "copies_in_slot i j c ?s1 (t\<lparr>m_drops := m_drops t + ?x\<rparr>)" .
    from spill_loop_copies [OF this patch(4)] obtain t2 where
      t2: "spill_loop (nat (m_buffer_len s)) (t\<lparr>m_drops := m_drops t + ?x\<rparr>, 0, 0) = (t2, lb, cb)"
      and r2: "copies_in_slot i ?j' ?c' s2 t2" unfolding V by blast
    have ti: "m_tail_idx t2 = m_tail_idx s2"
      using copies_in_slot_agree [OF r2] by (simp add: window_agree_def)
    let ?k = "nat (m_tail_idx s2)"
    have s': "s' = (bump ?k s2)\<lparr>m_head_idx := m_tail_idx s2, m_tail_sn := sn\<rparr>"
      by (simp add: patch(6) bump_def)
    let ?t' = "(bump ?k t2)\<lparr>m_head_idx := m_tail_idx s2, m_tail_sn := sn\<rparr>"
    have "?j' = 0 \<or> unat (m_buffer (bump ?k s2) ! i) + ?j' \<le> 255"
      using assms(4) by (simp add: s')
    from bump_copies [OF r2 this] have "copies_in_slot i ?j' ?c' s' ?t'"
      unfolding s' by (intro copies_set_tail_sn copies_set_head)
    moreover have "spill sn t = Some (r, ?t')"
      using patch(1,2,3,5,7) t2 ti
      by (simp add: spill_def Let_def fn eqs bump_def)
    ultimately show ?thesis by blast
  next
    case (patch0 s2 lb cb d0)
    let ?x = "word_of_int (d0 - 1) :: u64"
    let ?s1 = "s\<lparr>m_drops := m_drops s + ?x\<rparr>"
    have n: "spill_iterations sn s = nat (m_buffer_len s)"
      using patch0(1,3) by (simp add: spill_iterations_def Let_def)
    have V: "V = tail_visits i (nat (m_buffer_len s)) (m_buffer_len ?s1) (m_tail_idx ?s1)"
      using assms(3) n by simp
    from copies_add_drops [OF assms(1), of ?x]
    have "copies_in_slot i j c ?s1 (t\<lparr>m_drops := m_drops t + ?x\<rparr>)" .
    from spill_loop_copies [OF this patch0(4)] obtain t2 where
      t2: "spill_loop (nat (m_buffer_len s)) (t\<lparr>m_drops := m_drops t + ?x\<rparr>, 0, 0) = (t2, lb, cb)"
      and r2: "copies_in_slot i ?j' ?c' s2 t2" unfolding V by blast
    have "?j' = 0 \<or> unat (m_buffer (mark sn s2) ! i) + ?j' \<le> 255"
      using assms(4) by (simp add: patch0(6))
    from mark_copies [OF r2 this] have "copies_in_slot i ?j' ?c' s' (mark sn t2)"
      by (simp add: patch0(6))
    moreover have "spill sn t = Some (r, mark sn t2)"
      using patch0(1,2,3,5,7) t2
      by (simp add: spill_def Let_def fn eqs)
    ultimately show ?thesis by blast
  next
    case (normal s2 lb cb d0)
    have n: "spill_iterations sn s = nat (min (occupancy s) d0)"
      using normal(1,3) by (simp add: spill_iterations_def Let_def)
    have V: "V = tail_visits i (nat (min (occupancy s) d0)) (m_buffer_len s) (m_tail_idx s)"
      using assms(3) n by simp
    from spill_loop_copies [OF assms(1) normal(4)] obtain t2 where
      t2: "spill_loop (nat (min (occupancy s) d0)) (t, 0, 0) = (t2, lb, cb)"
      and r2: "copies_in_slot i ?j' ?c' s2 t2" unfolding V by blast
    have "?j' = 0 \<or> unat (m_buffer (mark sn s2) ! i) + ?j' \<le> 255"
      using assms(4) by (simp add: normal(5))
    from mark_copies [OF r2 this] have "copies_in_slot i ?j' ?c' s' (mark sn t2)"
      by (simp add: normal(5))
    moreover have "spill sn t = Some (r, mark sn t2)"
      using normal(1,2,3,6) t2
      by (simp add: spill_def Let_def fn eqs)
    ultimately show ?thesis by blast
  qed
qed

lemma spill_iterations_booked [simp]:
  "spill_iterations sn (booked x f p b s) = spill_iterations sn s"
  by (simp add: spill_iterations_def Let_def)

lemma admit_copies:
  assumes "copies_in_slot i j c s t" "admit (sn, f, p) s = Some (r, s')"
    and "j = 0 \<or> m_tail_sn s \<noteq> 0"
    and "V = slot_spilled i sn s"
    and "(if V then 0 else j) = 0 \<or> unat (m_buffer s' ! i) + (if V then 0 else j) \<le> 255"
  shows "\<exists>t'. admit (sn, f, p) t = Some (r, t') \<and>
               copies_in_slot i (if V then 0 else j) (if V then c + j else c) s' t'"
proof -
  note ag = copies_in_slot_agree [OF assms(1)]
  note fn = window_agree_funs [OF ag]
  have eqs: "m_buffer_len t = m_buffer_len s" "m_tail_sn t = m_tail_sn s"
    "m_tail_idx t = m_tail_idx s"
    using ag by (simp_all add: window_agree_def)
  note rb = copies_booked [OF assms(1), of sn f p "Some 0" sn f p "Some 0"]
  from assms(2) show ?thesis
  proof (cases rule: admit_cases)
    case first
    then have nV: "\<not> V" by (simp add: assms(4) slot_spilled_def beyond_window_def)
    from first(1) assms(3) have j0: "j = 0" by simp
    from assms(1) j0 have bt: "m_buffer t = m_buffer s" by (simp add: copies_none)
    from admit_firstI [of t sn f p] first(1)
    have "admit (sn, f, p) t = Some (0, (bk sn f p t)\<lparr>m_tail_sn := sn, m_head_idx := m_tail_idx t,
               m_buffer := (m_buffer t)[nat (m_tail_idx t) := 1]\<rparr>)"
      by (simp add: eqs)
    moreover have "copies_in_slot i 0 c s' ((bk sn f p t)\<lparr>m_tail_sn := sn, m_head_idx := m_tail_idx t,
               m_buffer := (m_buffer t)[nat (m_tail_idx t) := 1]\<rparr>)"
      using rb j0 bt by (simp add: first(3) copies_none window_agree_def eqs)
    ultimately show ?thesis using first(2) nV j0 by auto
  next
    case stale
    then have nV: "\<not> V" by (auto simp: assms(4) slot_spilled_def beyond_window_def)
    from admit_staleI [of t sn f p] stale(1,2) have "admit (sn, f, p) t = Some (0, bk sn f p t)"
      by (simp add: fn eqs)
    with rb stale(3,4) nV show ?thesis by auto
  next
    case fits
    then have nV: "\<not> V" by (auto simp: assms(4) slot_spilled_def beyond_window_def)
    from admit_fitsI [of t sn f p] fits(1,2,3,6,7)
    have "admit (sn, f, p) t = Some (0, mark sn (bk sn f p t))"
      by (simp add: fn eqs)
    moreover have "copies_in_slot i j c s' (mark sn (bk sn f p t))"
      unfolding fits(5) using assms(5) nV by (intro mark_copies [OF rb]) (simp add: fits(5))
    ultimately show ?thesis using fits(4) nV by auto
  next
    case (spills r0)
    have V: "V = tail_visits i (spill_iterations sn (bk sn f p s)) (m_buffer_len (bk sn f p s))
                   (m_tail_idx (bk sn f p s))"
      using spills(1,2,3) by (simp add: assms(4) slot_spilled_def beyond_window_def)
    from spill_copies [OF rb spills(4) V assms(5)] obtain t' where
      t': "spill sn (bk sn f p t) = Some (r0, t')"
      "copies_in_slot i (if V then 0 else j) (if V then c + j else c) s' t'" by blast
    from admit_spillsI [of t sn f p r0 t'] spills(1,2,3) t'(1)
    have "admit (sn, f, p) t = Some (max 0 r0, t')" by (simp add: fn eqs)
    with t'(2) spills(5) show ?thesis by blast
  qed
qed

lemma copies_wf:
  assumes "copies_in_slot i j c s t" "wf s"
  shows "wf t"
proof -
  from assms(1) have ag: "window_agree s t"
    and bt: "m_buffer t = (m_buffer s)[i := m_buffer s ! i + of_nat j]"
    by (simp_all add: copies_in_slot_def)
  from bt have "length (m_buffer t) = length (m_buffer s)" by simp
  with ag assms(2) show ?thesis by (simp add: wf_def window_agree_def)
qed

lemma extra_step:
  assumes "wf s" "copies_in_slot i j c s t" "in_window s sn" "nat (idx_for s sn) = i"
    "m_buffer s ! i \<noteq> 0" "head_settled s sn" "unat (m_buffer s ! i) + Suc j \<le> 255"
  shows "\<exists>t'. admit (sn, f, p) t = Some (0, t') \<and> copies_in_slot i (Suc j) c s t'"
proof -
  from assms(2) have ag: "window_agree s t" and d: "m_dups t = m_dups s + of_nat c"
    and bt: "m_buffer t = (m_buffer s)[i := m_buffer s ! i + of_nat j]"
    by (simp_all add: copies_in_slot_def)
  note fn = window_agree_funs [OF ag]
  have eqs: "m_tail_sn t = m_tail_sn s" "m_head_idx t = m_head_idx s"
    using ag by (simp_all add: window_agree_def)
  have wt: "wf t" using copies_wf [OF assms(2,1)] .
  have il: "i < length (m_buffer s)"
    using idx_for_range [OF assms(1), of sn] assms(1,4) by (auto simp: wf_def)
  have hs: "head_settled t sn" using assms(6) by (simp add: head_settled_def fn eqs)
  from assms(3) have iw: "m_tail_sn t \<noteq> 0" "lowest_possible_sn t \<le> sn" "sn \<le> highest_possible_sn t"
    by (simp_all add: in_window_def fn eqs)
  from extra_copy [OF wt iw hs, of f p]
  have ad: "admit (sn, f, p) t = Some (0, bump i (bk sn f p t))"
    by (simp add: fn assms(4))
  have "copies_in_slot i (Suc j) c s (bump i (bk sn f p t))"
    using ag d il bt assms(5,7)
    by (simp add: copies_in_slot_def window_agree_def bump_def ac_simps)
  with ad show ?thesis by blast
qed

lemma run_copies:
  assumes "wf s" "copies_in_slot i j c s t" "copies_fit i sn j xs s"
    "run (without_extras xs) s = Some sA"
  shows "\<exists>sB c'. run (with_extras xs) t = Some sB \<and>
           copies_in_slot i (pending_copies i j xs s) c' sA sB \<and>
           pending_copies i j xs s + c' = j + c + length (filter fst xs)"
  using assms
proof (induction xs arbitrary: s t j c)
  case Nil
  then show ?case by (simp add: without_extras_def with_extras_def)
next
  case (Cons x xs)
  obtain extra a f p where x: "x = (extra, a, f, p)" by (cases x) auto
  show ?case
  proof (cases extra)
    case True
    from Cons.prems(3) have fit: "a = sn" "in_window s sn" "nat (idx_for s sn) = i"
      "m_buffer s ! i \<noteq> 0" "head_settled s sn" "unat (m_buffer s ! i) + Suc j \<le> 255"
      "copies_fit i sn (Suc j) xs s"
      by (simp_all add: x True)
    from extra_step [OF Cons.prems(1,2) fit(2,3,4,5,6), of f p] obtain t1 where
      t1: "admit (sn, f, p) t = Some (0, t1)" "copies_in_slot i (Suc j) c s t1" by blast
    have rA: "run (without_extras xs) s = Some sA"
      using Cons.prems(4) by (simp add: without_extras_def x True)
    from Cons.IH [OF Cons.prems(1) t1(2) fit(7) rA] obtain sB c' where
      sB: "run (with_extras xs) t1 = Some sB"
      "copies_in_slot i (pending_copies i (Suc j) xs s) c' sA sB"
      "pending_copies i (Suc j) xs s + c' = Suc j + c + length (filter fst xs)" by blast
    have "run (with_extras (x # xs)) t = Some sB"
      using t1(1) sB(1) by (simp add: with_extras_def x fit(1))
    moreover have "pending_copies i j (x # xs) s = pending_copies i (Suc j) xs s"
      by (simp add: x True)
    moreover have "length (filter fst (x # xs)) = Suc (length (filter fst xs))"
      by (simp add: x True)
    ultimately show ?thesis using sB(2,3) by auto
  next
    case False
    from Cons.prems(4) obtain r s1 where ad: "admit (a, f, p) s = Some (r, s1)"
      and rA: "run (without_extras xs) s1 = Some sA"
      by (auto simp: without_extras_def x False split: option.splits)
    let ?V = "slot_spilled i a s"
    let ?j' = "if ?V then 0 else j"
    let ?c' = "if ?V then c + j else c"
    from Cons.prems(3) ad have fit: "j = 0 \<or> m_tail_sn s \<noteq> 0"
      "?j' = 0 \<or> unat (m_buffer s1 ! i) + ?j' \<le> 255" "copies_fit i sn ?j' xs s1"
      by (simp_all add: x False Let_def)
    from admit_copies [OF Cons.prems(2) ad fit(1) refl fit(2)] obtain t1 where
      t1: "admit (a, f, p) t = Some (r, t1)" "copies_in_slot i ?j' ?c' s1 t1" by blast
    have w1: "wf s1" using wf_admit [OF Cons.prems(1) ad] .
    from Cons.IH [OF w1 t1(2) fit(3) rA] obtain sB c' where
      sB: "run (with_extras xs) t1 = Some sB"
      "copies_in_slot i (pending_copies i ?j' xs s1) c' sA sB"
      "pending_copies i ?j' xs s1 + c' = ?j' + ?c' + length (filter fst xs)" by blast
    have "run (with_extras (x # xs)) t = Some sB"
      using t1(1) sB(1) by (simp add: with_extras_def x)
    moreover have "pending_copies i j (x # xs) s = pending_copies i ?j' xs s1"
      using ad by (simp add: x False)
    moreover have "length (filter fst (x # xs)) = length (filter fst xs)"
      by (simp add: x False)
    moreover have "?j' + ?c' = j + c" by simp
    ultimately show ?thesis using sB(2,3) by auto
  qed
qed

text \<open>
  Claim C7, as the code has it. Take any run from a new buffer and mark some of its
  arrivals as extra copies of the sequence number \<open>sn\<close>, at any places: each of them arrives
  while \<open>sn\<close> is in the window, in slot \<open>i\<close>, whose counter is not 0, and the 8-bit counter
  has room for it (\<open>copies_fit\<close>). If the run without the copies returns, so does the run
  with them, and the drops are the same. The \<open>k\<close> copies are accounted for as follows:
  those that arrived before slot \<open>i\<close> last left the window via spill are counted in the
  duplicates, exactly one each; those that arrived since (\<open>pending_copies\<close>) are still in
  the slot, whose counter is larger by their number. So once the slot has left via spill
  after the last copy, the duplicates are larger by exactly \<open>k\<close>, the number of copies.
\<close>

theorem extra_copies_counted:
  assumes "0 < len" "len < 2147483648"
    and "copies_fit i sn 0 xs (new_ReorderBuffer len)"
    and "run (without_extras xs) (new_ReorderBuffer len) = Some sA"
  shows "\<exists>sB. run (with_extras xs) (new_ReorderBuffer len) = Some sB \<and>
           drops sB = drops sA \<and>
           pending_copies i 0 xs (new_ReorderBuffer len) \<le> length (filter fst xs) \<and>
           duplicates_rb sB =
             duplicates_rb sA +
             of_nat (length (filter fst xs) - pending_copies i 0 xs (new_ReorderBuffer len)) \<and>
           m_buffer sB =
             (m_buffer sA)[i := m_buffer sA ! i +
                                 of_nat (pending_copies i 0 xs (new_ReorderBuffer len))]"
proof -
  let ?n = "new_ReorderBuffer len"
  have w: "wf ?n" using assms(1,2) by (rule wf_new)
  have "copies_in_slot i 0 0 ?n ?n" by (simp add: copies_none window_agree_def)
  from run_copies [OF w this assms(3,4)] obtain sB c' where
    sB: "run (with_extras xs) ?n = Some sB"
    "copies_in_slot i (pending_copies i 0 xs ?n) c' sA sB"
    "pending_copies i 0 xs ?n + c' = 0 + 0 + length (filter fst xs)" by blast
  from sB(3) have c': "c' = length (filter fst xs) - pending_copies i 0 xs ?n"
    and le: "pending_copies i 0 xs ?n \<le> length (filter fst xs)" by simp_all
  from sB(2) have "drops sB = drops sA"
    "duplicates_rb sB = duplicates_rb sA + of_nat c'"
    "m_buffer sB = (m_buffer sA)[i := m_buffer sA ! i + of_nat (pending_copies i 0 xs ?n)]"
    by (simp_all add: copies_in_slot_def window_agree_def drops_def duplicates_rb_def)
  with sB(1) c' le show ?thesis by blast
qed

text \<open>
  Two instances. On a buffer of 8 slots, two extra copies of 5 arrive, one after 6 and
  one after 7, and the arrival 20 spills the whole window: the duplicates are larger by 2.
  On a buffer of 16 slots (scenario S6), 1 to 10 arrive and then 5 again: the duplicates
  are unchanged and the counter of the slot of 5 is 2.
\<close>

theorem extra_copies_counted_witness:
  "\<exists>sA sB tA tB.
      copies_fit 0 5 0 [(False, 5, 5, 0), (False, 6, 6, 0), (True, 5, 5, 1), (False, 7, 7, 0),
                        (True, 5, 5, 1), (False, 20, 20, 0)] (new_ReorderBuffer 8) \<and>
      run [(5, 5, 0), (6, 6, 0), (7, 7, 0), (20, 20, 0)] (new_ReorderBuffer 8) = Some sA \<and>
      run [(5, 5, 0), (6, 6, 0), (5, 5, 1), (7, 7, 0), (5, 5, 1), (20, 20, 0)]
        (new_ReorderBuffer 8) = Some sB \<and>
      drops sB = drops sA \<and> duplicates_rb sB = duplicates_rb sA + 2 \<and>
      m_buffer sB = m_buffer sA \<and>
      copies_fit 4 5 0 (map (Pair False) (in_order 0 1 10) @ [(True, 5, 5, 0)])
        (new_ReorderBuffer 16) \<and>
      run (in_order 0 1 10) (new_ReorderBuffer 16) = Some tA \<and>
      run (in_order 0 1 10 @ [(5, 5, 0)]) (new_ReorderBuffer 16) = Some tB \<and>
      drops tB = drops tA \<and> duplicates_rb tB = duplicates_rb tA \<and>
      m_buffer tA ! 4 = 1 \<and> m_buffer tB = (m_buffer tA)[4 := 2]"
proof -
  let ?xs = "[(False, 5, 5, 0), (False, 6, 6, 0), (True, 5, 5, 1), (False, 7, 7, 0),
              (True, 5, 5, 1), (False, 20, 20, 0)] :: (bool \<times> arrival) list"
  let ?ys = "map (Pair False) (in_order 0 1 10) @ [(True, 5, 5, 0)] :: (bool \<times> arrival) list"
  have fx: "copies_fit 0 5 0 ?xs (new_ReorderBuffer 8)" by code_simp
  have fy: "copies_fit 4 5 0 ?ys (new_ReorderBuffer 16)" by code_simp
  have wx: "without_extras ?xs = [(5, 5, 0), (6, 6, 0), (7, 7, 0), (20, 20, 0)]"
    "with_extras ?xs = [(5, 5, 0), (6, 6, 0), (5, 5, 1), (7, 7, 0), (5, 5, 1), (20, 20, 0)]"
    "length (filter fst ?xs) = 2"
    by (simp_all add: without_extras_def with_extras_def)
  have wy: "without_extras ?ys = in_order 0 1 10"
    "with_extras ?ys = in_order 0 1 10 @ [(5, 5, 0)]"
    "length (filter fst ?ys) = 1"
    by (simp_all add: without_extras_def with_extras_def comp_def)
  have px: "pending_copies 0 0 ?xs (new_ReorderBuffer 8) = 0" by code_simp
  have py: "pending_copies 4 0 ?ys (new_ReorderBuffer 16) = 1" by code_simp
  have "run (without_extras ?xs) (new_ReorderBuffer 8) \<noteq> None" unfolding wx by code_simp
  then obtain sA where sA: "run (without_extras ?xs) (new_ReorderBuffer 8) = Some sA" by auto
  have "run (without_extras ?ys) (new_ReorderBuffer 16) \<noteq> None" unfolding wy by code_simp
  then obtain tA where tA: "run (without_extras ?ys) (new_ReorderBuffer 16) = Some tA" by auto
  have "m_buffer (the (run (in_order 0 1 10) (new_ReorderBuffer 16))) ! 4 = 1" by code_simp
  with tA have t4: "m_buffer tA ! 4 = 1" by (simp add: wy)
  from extra_copies_counted [OF _ _ fx sA] obtain sB where
    sB: "run (with_extras ?xs) (new_ReorderBuffer 8) = Some sB" "drops sB = drops sA"
    "duplicates_rb sB = duplicates_rb sA + 2" "m_buffer sB = m_buffer sA"
    unfolding px wx(3) by auto
  from extra_copies_counted [OF _ _ fy tA] obtain tB where
    tB: "run (with_extras ?ys) (new_ReorderBuffer 16) = Some tB" "drops tB = drops tA"
    "duplicates_rb tB = duplicates_rb tA" "m_buffer tB = (m_buffer tA)[4 := m_buffer tA ! 4 + 1]"
    unfolding py wy(3) by auto
  from tB(4) t4 have "m_buffer tB = (m_buffer tA)[4 := 2]" by simp
  with fx fy sA sB tA tB(1,2,3) t4 show ?thesis unfolding wx wy by blast
qed

text \<open>
  The claim as stated fails for 255 extra copies: the counter of the slot wraps around to
  0, the slot is spilled as a drop, and no duplicate is counted (drops 1 and duplicates 0,
  against drops 0 and duplicates 0 without the copies).
\<close>

theorem extra_copies_overflow:
  "map_option drops_and_dups
     (run ((1, 1, 0) # replicate 255 (1, 1, 0) @ [(10, 10, 0)]) (new_ReorderBuffer 8)) =
     Some (1, 0) \<and>
   map_option drops_and_dups (run [(1, 1, 0), (10, 10, 0)] (new_ReorderBuffer 8)) =
     Some (0, 0)"
  by code_simp

text \<open>
  Why \<open>head_settled\<close> is asked of an extra copy. After 5 and 3 on a buffer of 8 slots,
  the arrival 3, below the tail, has marked slot 6, which stands for the sequence number
  11: 11 is in the window and its slot holds 1, but 11 has not been delivered and is ahead
  of the head. A delivery of 11 moves the head, and the drops change: 1 after the arrival
  14, against 0 without the delivery of 11.
\<close>

lemma delivery_ahead_of_head:
  "map_option (\<lambda>s. (in_window s 11, m_buffer s ! nat (idx_for s 11), head_settled s 11))
     (run [(5, 5, 0), (3, 3, 0)] (new_ReorderBuffer 8)) = Some (True, 1, False) \<and>
   map_option drops_and_dups
     (run [(5, 5, 0), (3, 3, 0), (11, 11, 0), (14, 14, 0)] (new_ReorderBuffer 8)) =
     Some (1, 0) \<and>
   map_option drops_and_dups
     (run [(5, 5, 0), (3, 3, 0), (14, 14, 0)] (new_ReorderBuffer 8)) = Some (0, 0)"
  by code_simp

subsection \<open>Drops and good departures follow the tail\<close>

lemma spill_iter_count:
  assumes "spill_iter (s, lb, cb) = (s', lb', cb')"
  shows "m_tail_sn s' = m_tail_sn s + 1 \<and>
         (m_drops s' = m_drops s + 1 \<and> good_departures s' = good_departures s \<or>
          m_drops s' = m_drops s \<and> good_departures s' = good_departures s + 1)"
  using assms
  by (cases "m_buffer s ! nat (m_tail_idx s) = 0") (auto simp: spill_iter_def Let_def)

lemma spill_loop_count:
  assumes "spill_loop n (s, lb, cb) = (s', lb', cb')"
  shows "\<exists>k\<le>n. m_drops s' = m_drops s + of_nat k \<and>
               good_departures s' = good_departures s + (n - k) \<and>
               m_tail_sn s' = m_tail_sn s + of_nat n"
  using assms
proof (induction n arbitrary: s lb cb)
  case 0
  then show ?case by simp
next
  case (Suc n)
  obtain s1 lb1 cb1 where it: "spill_iter (s, lb, cb) = (s1, lb1, cb1)"
    by (cases "spill_iter (s, lb, cb)") auto
  with Suc.prems have rest: "spill_loop n (s1, lb1, cb1) = (s', lb', cb')" by simp
  from Suc.IH [OF rest] obtain k where k: "k \<le> n" "m_drops s' = m_drops s1 + of_nat k"
    "good_departures s' = good_departures s1 + (n - k)" "m_tail_sn s' = m_tail_sn s1 + of_nat n"
    by blast
  from spill_iter_count [OF it] have t: "m_tail_sn s1 = m_tail_sn s + 1"
    and c: "m_drops s1 = m_drops s + 1 \<and> good_departures s1 = good_departures s \<or>
          m_drops s1 = m_drops s \<and> good_departures s1 = good_departures s + 1" by simp_all
  from c show ?case
  proof
    assume "m_drops s1 = m_drops s + 1 \<and> good_departures s1 = good_departures s"
    with k t have "Suc k \<le> Suc n \<and> m_drops s' = m_drops s + of_nat (Suc k) \<and>
               good_departures s' = good_departures s + (Suc n - Suc k) \<and>
               m_tail_sn s' = m_tail_sn s + of_nat (Suc n)"
      by (simp add: ac_simps)
    then show ?thesis by blast
  next
    assume "m_drops s1 = m_drops s \<and> good_departures s1 = good_departures s + 1"
    with k t have "k \<le> Suc n \<and> m_drops s' = m_drops s + of_nat k \<and>
               good_departures s' = good_departures s + (Suc n - k) \<and>
               m_tail_sn s' = m_tail_sn s + of_nat (Suc n)"
      by (simp add: ac_simps Suc_diff_le)
    then show ?thesis by blast
  qed
qed

lemma uint_add_int:
  fixes x :: u64
  assumes "0 \<le> uint x + i" "uint x + i < 18446744073709551616"
  shows "uint (x + word_of_int i) = uint x + i"
proof -
  have "uint (x + word_of_int i) = (uint x + uint (word_of_int i :: u64)) mod 2 ^ LENGTH(64)"
    by (rule uint_word_ariths(1))
  also have "uint (word_of_int i :: u64) = i mod 2 ^ LENGTH(64)"
    by (rule uint_word_of_int)
  also have "(uint x + i mod 2 ^ LENGTH(64)) mod 2 ^ LENGTH(64) = (uint x + i) mod 2 ^ LENGTH(64)"
    by (rule mod_add_right_eq)
  also have "\<dots> = uint x + i" using assms by simp
  finally show ?thesis .
qed

lemma uint_add_nat:
  fixes x :: u64
  assumes "uint x + int k < 18446744073709551616"
  shows "uint (x + of_nat k) = uint x + int k"
proof -
  have "x + of_nat k = x + word_of_int (int k)" by simp
  moreover have "uint (x + word_of_int (int k)) = uint x + int k"
    using assms by (intro uint_add_int) simp_all
  ultimately show ?thesis by simp
qed

lemma uint_hsn:
  assumes "0 < m_buffer_len s" "uint (m_tail_sn s) + m_buffer_len s \<le> 18446744073709551616"
  shows "uint (highest_possible_sn s) = uint (m_tail_sn s) + m_buffer_len s - 1"
proof -
  have "highest_possible_sn s = m_tail_sn s + word_of_int (m_buffer_len s - 1)"
    by (simp add: highest_possible_sn_def)
  moreover have "uint (m_tail_sn s + word_of_int (m_buffer_len s - 1)) = uint (m_tail_sn s) + (m_buffer_len s - 1)"
    using assms by (intro uint_add_int) simp_all
  ultimately show ?thesis by simp
qed

lemma lsn_le_tail: "lowest_possible_sn s \<le> m_tail_sn s"
  by (simp add: lowest_possible_sn_def Let_def word_sub_le)

lemma uint_max: "uint (max (a::u64) b) = max (uint a) (uint b)"
  by (simp add: max_def word_le_def)

lemma uint_min: "uint (min (a::u64) b) = min (uint a) (uint b)"
  by (simp add: min_def word_le_def)

lemma occupancy_bounds:
  assumes "wf s" "m_tail_sn s \<noteq> 0"
  shows "1 \<le> occupancy s" "occupancy s \<le> m_buffer_len s"
  using assms unfolding wf_def occupancy_def Let_def
  by (auto simp: smod_nonneg)

lemma spill_total:
  "0 < to_int32 (uint (sn - highest_possible_sn s)) \<Longrightarrow> \<exists>r s'. spill sn s = Some (r, s')"
  by (simp add: spill_def Let_def split: prod.splits)

lemma spill_distance_small:
  assumes "wf s" "uint (m_tail_sn s) < 2147483648" "highest_possible_sn s < sn"
    "uint sn < 2147483648"
  shows "to_int32 (uint (sn - highest_possible_sn s)) =
           uint sn - (uint (m_tail_sn s) + m_buffer_len s - 1)"
    and "0 < uint sn - (uint (m_tail_sn s) + m_buffer_len s - 1)"
proof -
  have L: "0 < m_buffer_len s" "m_buffer_len s < 2147483648" using assms(1) by (simp_all add: wf_def)
  have h: "uint (highest_possible_sn s) = uint (m_tail_sn s) + m_buffer_len s - 1"
    using L assms(2) by (intro uint_hsn) simp_all
  have lt: "uint (highest_possible_sn s) < uint sn" using assms(3) by (simp add: word_less_alt)
  then have "uint (sn - highest_possible_sn s) = uint sn - uint (highest_possible_sn s)"
    by (simp add: uint_sub_if')
  with h have d: "uint (sn - highest_possible_sn s) = uint sn - (uint (m_tail_sn s) + m_buffer_len s - 1)"
    by simp
  have nn: "0 \<le> uint (m_tail_sn s)" by simp
  show pos: "0 < uint sn - (uint (m_tail_sn s) + m_buffer_len s - 1)" using lt h by simp
  have "uint sn - (uint (m_tail_sn s) + m_buffer_len s - 1) < 2147483648"
    using assms(4) L nn by linarith
  with pos d show "to_int32 (uint (sn - highest_possible_sn s)) =
           uint sn - (uint (m_tail_sn s) + m_buffer_len s - 1)"
    by (simp add: to_int32_id)
qed

lemma uint_add_int_mod:
  fixes x :: u64
  shows "uint (x + word_of_int i) = (uint x + i) mod 18446744073709551616"
proof -
  have "uint (x + word_of_int i) = (uint x + uint (word_of_int i :: u64)) mod 2 ^ LENGTH(64)"
    by (rule uint_word_ariths(1))
  also have "uint (word_of_int i :: u64) = i mod 2 ^ LENGTH(64)"
    by (rule uint_word_of_int)
  also have "(uint x + i mod 2 ^ LENGTH(64)) mod 2 ^ LENGTH(64) = (uint x + i) mod 2 ^ LENGTH(64)"
    by (rule mod_add_right_eq)
  finally show ?thesis by simp
qed

lemma uint_hsn_wrapped:
  assumes "0 < m_buffer_len s" "m_buffer_len s < 2147483648"
    "18446744073709551616 < uint (m_tail_sn s) + m_buffer_len s"
  shows "uint (highest_possible_sn s) = uint (m_tail_sn s) + m_buffer_len s - 1 - 18446744073709551616"
proof -
  let ?a = "uint (m_tail_sn s) + (m_buffer_len s - 1)"
  have "highest_possible_sn s = m_tail_sn s + word_of_int (m_buffer_len s - 1)"
    by (simp add: highest_possible_sn_def)
  then have "uint (highest_possible_sn s) = ?a mod 18446744073709551616"
    by (simp only: uint_add_int_mod)
  also have "\<dots> = (?a - 18446744073709551616) mod 18446744073709551616"
    by (rule minus_mod_self2 [symmetric])
  also have "\<dots> = ?a - 18446744073709551616"
  proof (rule mod_pos_pos_trivial)
    show "0 \<le> ?a - 18446744073709551616" using assms by linarith
    have "uint (m_tail_sn s) < 18446744073709551616" using uint_lt2p [of "m_tail_sn s"] by simp
    then show "?a - 18446744073709551616 < 18446744073709551616" using assms by linarith
  qed
  finally show ?thesis by simp
qed

lemma uint_lsn_wrapped:
  assumes "wf s" "m_tail_sn s \<noteq> 0" "18446744073709551616 < uint (m_tail_sn s) + m_buffer_len s"
  shows "uint (m_tail_sn s) - m_buffer_len s + 1 \<le> uint (lowest_possible_sn s)"
proof -
  let ?L = "m_buffer_len s"
  let ?T = "uint (m_tail_sn s)"
  let ?diff = "word_of_int (?L - occupancy s) :: u64"
  have L: "0 < ?L" "?L < 2147483648" using assms(1) by (simp_all add: wf_def)
  note ob = occupancy_bounds [OF assms(1,2)]
  have "0 \<le> ?L - occupancy s" "?L - occupancy s < 2147483648" using ob L by linarith+
  then have ud: "uint ?diff = ?L - occupancy s" by (rule uint_len)
  have lt: "uint ?diff < ?T" using ud ob L assms(3) by linarith
  then have "?diff < m_tail_sn s" by (simp add: word_less_alt)
  then have "lowest_possible_sn s = m_tail_sn s - ?diff"
    by (simp add: lowest_possible_sn_def Let_def)
  moreover have "uint (m_tail_sn s - ?diff) = ?T - uint ?diff"
    using lt by (simp add: uint_sub_if')
  ultimately show ?thesis using ud ob by simp
qed

lemma spill_distance:
  assumes "wf s" "m_tail_sn s \<noteq> 0" "lowest_possible_sn s \<le> sn" "highest_possible_sn s < sn"
    "jump_fits s sn"
  shows "uint (m_tail_sn s) + m_buffer_len s \<le> 18446744073709551616"
    and "to_int32 (uint (sn - highest_possible_sn s)) =
           uint sn - (uint (m_tail_sn s) + m_buffer_len s - 1)"
    and "0 < uint sn - (uint (m_tail_sn s) + m_buffer_len s - 1)"
    and "uint sn - (uint (m_tail_sn s) + m_buffer_len s - 1) < 2147483648"
proof -
  let ?L = "m_buffer_len s"
  let ?T = "uint (m_tail_sn s)"
  have L: "0 < ?L" "?L < 2147483648" using assms(1) by (simp_all add: wf_def)
  have lt: "uint (highest_possible_sn s) < uint sn" using assms(4) by (simp add: word_less_alt)
  then have sub: "uint (sn - highest_possible_sn s) = uint sn - uint (highest_possible_sn s)"
    by (simp add: uint_sub_if')
  have fit: "uint sn - uint (highest_possible_sn s) < 2147483648"
    using assms(5) sub by (simp add: jump_fits_def)
  show nw: "?T + ?L \<le> 18446744073709551616"
  proof (rule ccontr)
    assume "\<not> ?T + ?L \<le> 18446744073709551616"
    then have w: "18446744073709551616 < ?T + ?L" by simp
    from uint_hsn_wrapped [OF L w]
    have h: "uint (highest_possible_sn s) = ?T + ?L - 1 - 18446744073709551616" .
    from uint_lsn_wrapped [OF assms(1,2) w]
    have l: "?T - ?L + 1 \<le> uint (lowest_possible_sn s)" .
    have "uint (lowest_possible_sn s) \<le> uint sn" using assms(3) by (simp add: word_le_def)
    with l h fit L show False by linarith
  qed
  have h: "uint (highest_possible_sn s) = ?T + ?L - 1"
    using L nw by (intro uint_hsn) simp_all
  show pos: "0 < uint sn - (?T + ?L - 1)" using lt h by simp
  show small: "uint sn - (?T + ?L - 1) < 2147483648" using fit h by simp
  from pos small sub h show "to_int32 (uint (sn - highest_possible_sn s)) = uint sn - (?T + ?L - 1)"
    by (simp add: to_int32_id)
qed


lemma spill_effect:
  assumes "wf s" "m_tail_sn s \<noteq> 0" "lowest_possible_sn s \<le> sn" "highest_possible_sn s < sn"
    "jump_fits s sn" "uint (m_drops s) \<le> uint (m_tail_sn s)"
  shows "\<exists>r s'. spill sn s = Some (r, s') \<and> wf s' \<and>
           uint (m_tail_sn s) \<le> uint (m_tail_sn s') \<and> uint (m_tail_sn s') \<le> uint sn \<and>
           uint (m_drops s') + int (good_departures s') =
             uint (m_drops s) + int (good_departures s) + (uint (m_tail_sn s') - uint (m_tail_sn s)) \<and>
           (m_buffer_len s \<le> uint (sn - highest_possible_sn s) \<longrightarrow> m_tail_sn s' = sn) \<and>
           m_largest_received_sn s' = m_largest_received_sn s \<and>
           m_smallest_received_sn s' = m_smallest_received_sn s"
proof -
  let ?L = "m_buffer_len s"
  let ?T = "uint (m_tail_sn s)"
  let ?D = "uint sn - (?T + ?L - 1)"
  have L: "0 < ?L" "?L < 2147483648" using assms(1) by (simp_all add: wf_def)
  note d = spill_distance [OF assms(1,2,3,4,5)]
  have h: "uint (highest_possible_sn s) = ?T + ?L - 1"
    using L d(1) by (intro uint_hsn) simp_all
  have lt: "uint (highest_possible_sn s) < uint sn" using assms(4) by (simp add: word_less_alt)
  then have sub: "uint (sn - highest_possible_sn s) = ?D"
    using h by (simp add: uint_sub_if')
  have snb: "uint sn < 18446744073709551616" using uint_lt2p [of sn] by simp
  from spill_total [of sn s] d(2,3) obtain r s' where sp: "spill sn s = Some (r, s')" by auto
  have w': "wf s'" using wf_spill [OF assms(1) sp] .
  from spill_frame [OF sp] have fr: "m_largest_received_sn s' = m_largest_received_sn s"
    "m_smallest_received_sn s' = m_smallest_received_sn s" by simp_all
  have Tnn: "0 \<le> ?T" by simp
  have dnn: "0 \<le> uint (m_drops s)" by simp
  from sp have "uint (m_tail_sn s) \<le> uint (m_tail_sn s') \<and> uint (m_tail_sn s') \<le> uint sn \<and>
           uint (m_drops s') + int (good_departures s') =
             uint (m_drops s) + int (good_departures s) + (uint (m_tail_sn s') - uint (m_tail_sn s)) \<and>
           (m_buffer_len s \<le> uint (sn - highest_possible_sn s) \<longrightarrow> m_tail_sn s' = sn)"
  proof (cases rule: spill_cases)
    case (patch s2 lb cb d0)
    have d0: "d0 = ?D" using patch(1) d(2) by simp
    let ?s1 = "s\<lparr>m_drops := m_drops s + word_of_int (d0 - 1)\<rparr>"
    from spill_loop_count [OF patch(4)] obtain k where k: "k \<le> nat ?L"
      "m_drops s2 = m_drops ?s1 + of_nat k"
      "good_departures s2 = good_departures ?s1 + (nat ?L - k)"
      by blast
    have D1: "0 \<le> d0 - 1" using patch(2) by linarith
    have u1: "uint (m_drops s + word_of_int (d0 - 1)) = uint (m_drops s) + (d0 - 1)"
      using D1 d0 assms(6) dnn snb L by (intro uint_add_int) linarith+
    have kb: "int k \<le> ?L" using k(1) L by linarith
    have u2: "uint (m_drops s + word_of_int (d0 - 1) + of_nat k) = uint (m_drops s) + (d0 - 1) + int k"
      using u1 D1 d0 assms(6) kb L snb by (subst uint_add_nat) linarith+
    have dr: "uint (m_drops s') = uint (m_drops s) + (d0 - 1) + int k"
      using u2 k(2) by (simp add: patch(6))
    have gd: "int (good_departures s') = int (good_departures s) + (?L - int k)"
      using k(1,3) L by (simp add: patch(6) of_nat_diff)
    have ts: "m_tail_sn s' = sn" by (simp add: patch(6))
    have "?T \<le> uint sn" using d(3) L by linarith
    moreover have "uint (m_drops s') + int (good_departures s') =
             uint (m_drops s) + int (good_departures s) + (uint sn - ?T)"
      using dr gd d0 by linarith
    ultimately show ?thesis using ts by simp
  next
    case (patch0 s2 lb cb d0)
    have d0: "d0 = ?D" using patch0(1) d(2) by simp
    have L1: "?L = 1" using patch0(2,3,5) L by linarith
    let ?s1 = "s\<lparr>m_drops := m_drops s + word_of_int (d0 - 1)\<rparr>"
    from spill_loop_count [OF patch0(4)] obtain k where k: "k \<le> nat ?L"
      "m_drops s2 = m_drops ?s1 + of_nat k"
      "good_departures s2 = good_departures ?s1 + (nat ?L - k)"
      "m_tail_sn s2 = m_tail_sn ?s1 + of_nat (nat ?L)"
      by blast
    have sn1: "uint sn = ?T + 1" using d0 patch0(5) L1 by linarith
    have t1: "uint (m_tail_sn s + 1) = ?T + 1"
      using sn1 snb uint_add_nat [of "m_tail_sn s" 1] by simp
    have ts: "m_tail_sn s' = m_tail_sn s + 1"
      using k(4) L1 by (simp add: patch0(6) mark_frame)
    have tsn: "m_tail_sn s' = sn" using ts t1 sn1 by (simp add: word_uint_eq_iff)
    have kb: "k \<le> 1" using k(1) L1 by simp
    have "uint (m_drops s + of_nat k) = uint (m_drops s) + int k"
      using assms(6) kb sn1 snb by (intro uint_add_nat) linarith
    then have dr: "uint (m_drops s') = uint (m_drops s) + int k"
      using k(2) patch0(5) by (simp add: patch0(6) mark_frame)
    have gd: "int (good_departures s') = int (good_departures s) + (1 - int k)"
      using k(3) kb L1 by (simp add: patch0(6) mark_frame of_nat_diff)
    show ?thesis using tsn sn1 dr gd by simp
  next
    case (normal s2 lb cb d0)
    have d0: "d0 = ?D" using normal(1) d(2) by simp
    let ?n = "nat (min (occupancy s) d0)"
    from spill_loop_count [OF normal(4)] obtain k where k: "k \<le> ?n"
      "m_drops s2 = m_drops s + of_nat k"
      "good_departures s2 = good_departures s + (?n - k)"
      "m_tail_sn s2 = m_tail_sn s + of_nat ?n"
      by blast
    have nb: "int ?n \<le> d0" using normal(2) by simp
    have nL: "int ?n < ?L" using nb normal(3) by linarith
    have "uint (m_tail_sn s + of_nat ?n) = ?T + int ?n"
      using nL d(1) by (intro uint_add_nat) linarith
    then have t2: "uint (m_tail_sn s') = ?T + int ?n"
      using k(4) by (simp add: normal(5) mark_frame)
    have kb: "int k \<le> int ?n" using k(1) by (simp only: of_nat_le_iff)
    have "uint (m_drops s + of_nat k) = uint (m_drops s) + int k"
      using assms(6) kb nL d(1) by (intro uint_add_nat) linarith
    then have dr: "uint (m_drops s') = uint (m_drops s) + int k"
      using k(2) by (simp add: normal(5) mark_frame)
    have gd: "int (good_departures s') = int (good_departures s) + (int ?n - int k)"
      using k(1,3) by (simp add: normal(5) mark_frame of_nat_diff)
    have "\<not> (?L \<le> uint (sn - highest_possible_sn s))"
      using sub d0 normal(3) by linarith
    moreover have "uint (m_tail_sn s') \<le> uint sn"
      using t2 nb d0 L by linarith
    ultimately show ?thesis using t2 dr gd by simp
  qed
  with sp w' fr show ?thesis by blast
qed

lemma admit_accounted:
  assumes "accounted a0 s" "\<not> beyond_window s sn \<or> jump_fits s sn"
  shows "\<exists>r s'. admit (sn, f, p) s = Some (r, s') \<and> accounted a0 s' \<and>
           (beyond_window s sn \<and> m_buffer_len s \<le> uint (sn - highest_possible_sn s) \<longrightarrow>
              m_tail_sn s' = sn \<and> m_largest_received_sn s' = sn)"
proof -
  let ?L = "m_buffer_len s"
  let ?T = "uint (m_tail_sn s)"
  let ?G = "uint (m_largest_received_sn s)"
  from assms(1) have w: "wf s" and tz: "m_tail_sn s \<noteq> 0"
    and acc: "uint (m_drops s) + int (good_departures s) + uint a0 = ?T"
    and TG: "?T \<le> ?G"
    and GT: "?G \<le> ?T + 2 * ?L - 2 \<or> 18446744073709551616 < ?T + ?L"
    and sm: "uint (m_smallest_received_sn s) \<le> uint a0"
    by (simp_all add: accounted_def)
  have L: "0 < ?L" "?L < 2147483648" using w by (simp_all add: wf_def)
  have nn: "0 \<le> uint (m_drops s)" "0 \<le> int (good_departures s)" "0 \<le> uint a0" by simp_all
  have db: "uint (m_drops s) \<le> ?T" using acc nn by linarith
  let ?b = "bk sn f p s"
  have sm': "uint (min sn (m_smallest_received_sn s)) \<le> uint a0"
    using sm by (simp add: uint_min)
  have lg: "uint (max sn (m_largest_received_sn s)) = max (uint sn) ?G" by (rule uint_max)
  consider (stale) "sn < lowest_possible_sn s"
    | (fits) "lowest_possible_sn s \<le> sn" "sn \<le> highest_possible_sn s"
    | (spills) "lowest_possible_sn s \<le> sn" "highest_possible_sn s < sn"
    by (meson not_le)
  then show ?thesis
  proof cases
    case stale
    from admit_staleI [OF tz stale] have ad: "admit (sn, f, p) s = Some (0, ?b)" .
    have "uint sn < uint (lowest_possible_sn s)" using stale by (simp add: word_less_alt)
    moreover have "uint (lowest_possible_sn s) \<le> ?T" using lsn_le_tail [of s] by (simp add: word_le_def)
    ultimately have lt: "uint sn < ?T" by linarith
    then have "max (uint sn) ?G = ?G" using TG by simp
    then have "accounted a0 ?b"
      using w tz acc TG GT sm' lg by (simp add: accounted_def)
    moreover have "\<not> beyond_window s sn" using stale by (auto simp: beyond_window_def)
    ultimately show ?thesis using ad by blast
  next
    case fits
    from admit_fitsI [OF tz fits idx_for_range [OF w]]
    have ad: "admit (sn, f, p) s = Some (0, mark sn ?b)" .
    have m1: "max (uint sn) ?G \<le> ?T + 2 * ?L - 2 \<or> 18446744073709551616 < ?T + ?L"
    proof (cases "18446744073709551616 < ?T + ?L")
      case True
      then show ?thesis by simp
    next
      case False
      then have h: "uint (highest_possible_sn s) = ?T + ?L - 1"
        using L by (intro uint_hsn) simp_all
      have "uint sn \<le> ?T + ?L - 1" using fits(2) h by (simp add: word_le_def)
      with GT False L show ?thesis by simp
    qed
    have m2: "?T \<le> max (uint sn) ?G" using TG by simp
    have "wf (mark sn ?b)" using w by (simp add: wf_mark)
    then have "accounted a0 (mark sn ?b)"
      using tz acc m1 m2 sm' lg by (simp add: accounted_def mark_frame)
    moreover have "\<not> beyond_window s sn" using fits by (auto simp: beyond_window_def)
    ultimately show ?thesis using ad by blast
  next
    case spills
    have bw: "beyond_window s sn" using tz spills by (simp add: beyond_window_def)
    with assms(2) have jf: "jump_fits s sn" by simp
    note d = spill_distance [OF w tz spills jf]
    have h: "uint (highest_possible_sn s) = ?T + ?L - 1"
      using L d(1) by (intro uint_hsn) simp_all
    have GT': "?G \<le> ?T + 2 * ?L - 2" using GT d(1) by linarith
    have lt: "uint (highest_possible_sn s) < uint sn" using spills(2) by (simp add: word_less_alt)
    then have sub: "uint (sn - highest_possible_sn s) = uint sn - (?T + ?L - 1)"
      using h by (simp add: uint_sub_if')
    have wb: "wf ?b" using w by simp
    have jb: "jump_fits ?b sn" using jf by (simp add: jump_fits_def)
    from spill_effect [OF wb, of sn] tz spills jb db
    obtain r0 s' where sp: "spill sn ?b = Some (r0, s')" and w': "wf s'"
      and t1: "?T \<le> uint (m_tail_sn s')" and t2: "uint (m_tail_sn s') \<le> uint sn"
      and cnt: "uint (m_drops s') + int (good_departures s') =
             uint (m_drops s) + int (good_departures s) + (uint (m_tail_sn s') - ?T)"
      and dr: "?L \<le> uint (sn - highest_possible_sn s) \<longrightarrow> m_tail_sn s' = sn"
      and lg': "m_largest_received_sn s' = max sn (m_largest_received_sn s)"
      and sm'': "m_smallest_received_sn s' = min sn (m_smallest_received_sn s)"
      by auto
    from admit_spillsI [OF tz spills sp] have ad: "admit (sn, f, p) s = Some (max 0 r0, s')" .
    from spill_frame [OF sp] have Ls: "m_buffer_len s' = ?L" by simp
    have tz': "m_tail_sn s' \<noteq> 0"
    proof
      assume "m_tail_sn s' = 0"
      then have "uint (m_tail_sn s') = 0" by simp
      with t1 have "?T = 0" by simp
      then have "m_tail_sn s = 0" by (simp add: uint_0_iff)
      with tz show False by simp
    qed
    have a1: "uint (m_drops s') + int (good_departures s') + uint a0 = uint (m_tail_sn s')"
      using cnt acc by linarith
    have a2: "uint (m_tail_sn s') \<le> max (uint sn) ?G" using t2 by simp
    have a3: "max (uint sn) ?G \<le> uint (m_tail_sn s') + 2 * ?L - 2"
    proof (cases "?L \<le> uint (sn - highest_possible_sn s)")
      case True
      with dr have "uint (m_tail_sn s') = uint sn" by simp
      moreover have "?G < uint sn" using True sub GT' by linarith
      ultimately show ?thesis using L by simp
    next
      case False
      then have "uint sn \<le> ?T + 2 * ?L - 2" using sub by linarith
      with GT' t1 show ?thesis by simp
    qed
    have "accounted a0 s'"
      using w' tz' a1 a2 a3 sm' by (simp add: accounted_def lg' sm'' lg Ls)
    moreover have "?L \<le> uint (sn - highest_possible_sn s) \<longrightarrow>
              m_tail_sn s' = sn \<and> m_largest_received_sn s' = sn"
    proof
      assume dd: "?L \<le> uint (sn - highest_possible_sn s)"
      then have "?G < uint sn" using sub GT' by linarith
      then have "m_largest_received_sn s < sn" by (simp add: word_less_alt)
      then have "max sn (m_largest_received_sn s) = sn" by (simp add: max_absorb1)
      with dd dr lg' show "m_tail_sn s' = sn \<and> m_largest_received_sn s' = sn" by simp
    qed
    ultimately show ?thesis using ad by blast
  qed
qed

lemma first_accounted:
  assumes "unstarted s" "sn \<noteq> 0"
  shows "\<exists>s'. admit (sn, f, p) s = Some (0, s') \<and> accounted sn s'"
proof -
  from assms(1) have w: "wf s" and t0: "m_tail_sn s = 0" and z: "m_drops s = 0"
    "good_departures s = 0" "m_largest_received_sn s = 0" "m_smallest_received_sn s = 0"
    by (simp_all add: unstarted_def)
  let ?s' = "(bk sn f p s)\<lparr>m_tail_sn := sn, m_head_idx := m_tail_idx s,
               m_buffer := (m_buffer s)[nat (m_tail_idx s) := 1]\<rparr>"
  from admit_firstI [OF t0, of sn f p] have ad: "admit (sn, f, p) s = Some (0, ?s')" .
  have L: "0 < m_buffer_len s" using w by (simp add: wf_def)
  have "wf ?s'" using w by (simp add: wf_def)
  moreover have "m_largest_received_sn ?s' = sn" "m_smallest_received_sn ?s' = 0"
    "m_drops ?s' = 0" "good_departures ?s' = 0" "m_buffer_len ?s' = m_buffer_len s"
    using z by (simp_all add: max_def min_def)
  ultimately have "accounted sn ?s'" using assms(2) L by (simp add: accounted_def)
  with ad show ?thesis by blast
qed

lemma zero_unstarted:
  assumes "unstarted s"
  shows "\<exists>s'. admit (0, f, p) s = Some (0, s') \<and> unstarted s'"
proof -
  from assms have w: "wf s" and t0: "m_tail_sn s = 0" and z: "m_drops s = 0"
    "good_departures s = 0" "m_largest_received_sn s = 0" "m_smallest_received_sn s = 0"
    by (simp_all add: unstarted_def)
  let ?s' = "(bk 0 f p s)\<lparr>m_tail_sn := 0, m_head_idx := m_tail_idx s,
               m_buffer := (m_buffer s)[nat (m_tail_idx s) := 1]\<rparr>"
  from admit_firstI [OF t0, of 0 f p] have ad: "admit (0, f, p) s = Some (0, ?s')" .
  have "wf ?s'" using w by (simp add: wf_def)
  then have "unstarted ?s'" using z by (simp add: unstarted_def)
  with ad show ?thesis by blast
qed

lemma run_accounted:
  assumes "accounted a0 s" "jumps_fit as s"
  shows "\<exists>s'. run as s = Some s' \<and> accounted a0 s'"
  using assms
proof (induction as arbitrary: s)
  case Nil
  then show ?case by simp
next
  case (Cons a as)
  obtain sn f p where a: "a = (sn, f, p)" by (cases a) auto
  from Cons.prems(2) have b: "\<not> beyond_window s sn \<or> jump_fits s sn" by (simp add: a)
  from admit_accounted [OF Cons.prems(1) b, of f p] obtain r s1 where
    s1: "admit (sn, f, p) s = Some (r, s1)" "accounted a0 s1" by blast
  from Cons.prems(2) s1(1) have "jumps_fit as s1" by (simp add: a)
  from Cons.IH [OF s1(2) this] obtain s' where "run as s1 = Some s'" "accounted a0 s'"
    by auto
  with s1(1) show ?case by (simp add: a)
qed

lemma run_unstarted:
  assumes "unstarted s" "jumps_fit as s"
  shows "\<exists>s'. run as s = Some s' \<and>
           (if first_sn as = 0 then unstarted s' else accounted (first_sn as) s')"
  using assms
proof (induction as arbitrary: s)
  case Nil
  then show ?case by simp
next
  case (Cons a as)
  obtain sn f p where a: "a = (sn, f, p)" by (cases a) auto
  show ?case
  proof (cases "sn = 0")
    case True
    from zero_unstarted [OF Cons.prems(1), of f p] obtain s1 where
      s1: "admit (0, f, p) s = Some (0, s1)" "unstarted s1" by blast
    from Cons.prems(2) s1(1) have "jumps_fit as s1" by (simp add: a True)
    from Cons.IH [OF s1(2) this] obtain s' where "run as s1 = Some s'"
      "if first_sn as = 0 then unstarted s' else accounted (first_sn as) s'" by blast
    with s1(1) show ?thesis by (simp add: a True)
  next
    case False
    from first_accounted [OF Cons.prems(1) False, of f p] obtain s1 where
      s1: "admit (sn, f, p) s = Some (0, s1)" "accounted sn s1" by blast
    from Cons.prems(2) s1(1) have "jumps_fit as s1" by (simp add: a)
    from run_accounted [OF s1(2) this] s1(1) False show ?thesis by (simp add: a)
  qed
qed

lemma unstarted_new: "0 < len \<Longrightarrow> len < 2147483648 \<Longrightarrow> unstarted (new_ReorderBuffer len)"
  by (simp add: unstarted_def wf_new) (simp add: new_ReorderBuffer_def)

lemma admit_buffer_len:
  assumes "admit (sn, f, p) s = Some (r, s')"
  shows "m_buffer_len s' = m_buffer_len s"
  using assms by (cases rule: admit_cases) (auto simp: mark_frame dest: spill_frame)

lemma run_buffer_len: "run as s = Some s' \<Longrightarrow> m_buffer_len s' = m_buffer_len s"
proof (induction as arbitrary: s)
  case Nil
  then show ?case by simp
next
  case (Cons a as)
  obtain sn f p where a: "a = (sn, f, p)" by (cases a) auto
  from Cons.prems obtain r s1 where ad: "admit (sn, f, p) s = Some (r, s1)"
    and rest: "run as s1 = Some s'"
    by (auto simp: a split: option.splits)
  from Cons.IH [OF rest] admit_buffer_len [OF ad] show ?case by simp
qed

text \<open>
  Claim C8, as the code has it. On a buffer of capacity between 1 and \<open>2\<^sup>3\<^sup>1 - 1\<close>, for
  any sequence of arrivals in which every arrival beyond the window is less than \<open>2\<^sup>3\<^sup>1\<close>
  beyond \<^verbatim>\<open>highest_possible_sn()\<close> (the \<^verbatim>\<open>int distance\<close> of \<^verbatim>\<open>spill\<close> holds the jump):
  every call returns, and \<open>drops + observed_good_departures\<close> is at most
  \<open>largest_received_sn - smallest_received_sn + 1\<close>. After a drain arrival that is at least a
  buffer length, and less than \<open>2\<^sup>3\<^sup>1\<close>, beyond \<^verbatim>\<open>highest_possible_sn()\<close>,
  \<open>drops + observed_good_departures\<close> equals the largest received sequence number minus the
  first admitted sequence number that is not 0. The hypothesis holds for every prefix of
  the arrivals (\<open>jumps_fit_prefix\<close>), so the inequality holds at all times.
\<close>

theorem departures_accounted:
  assumes "0 < len" "len < 2147483648"
    and "jumps_fit as (new_ReorderBuffer len)"
  shows "\<exists>s. run as (new_ReorderBuffer len) = Some s \<and>
           uint (drops s) + int (good_departures s) \<le>
             uint (m_largest_received_sn s) - uint (m_smallest_received_sn s) + 1 \<and>
           (\<forall>d. beyond_window s (fst d) \<and> jump_fits s (fst d) \<and>
                len \<le> uint (fst d - highest_possible_sn s) \<longrightarrow>
                (\<exists>r s'. admit d s = Some (r, s') \<and> m_largest_received_sn s' = fst d \<and>
                   uint (drops s') + int (good_departures s') =
                     uint (m_largest_received_sn s') - uint (first_sn as)))"
proof -
  from run_unstarted [OF unstarted_new [OF assms(1,2)] assms(3)] obtain s where
    r: "run as (new_ReorderBuffer len) = Some s"
    and inv: "if first_sn as = 0 then unstarted s else accounted (first_sn as) s" by blast
  have le: "uint (drops s) + int (good_departures s) \<le>
             uint (m_largest_received_sn s) - uint (m_smallest_received_sn s) + 1"
  proof (cases "first_sn as = 0")
    case True
    with inv show ?thesis by (simp add: unstarted_def drops_def)
  next
    case False
    with inv have "uint (m_drops s) + int (good_departures s) + uint (first_sn as) = uint (m_tail_sn s)"
      "uint (m_tail_sn s) \<le> uint (m_largest_received_sn s)"
      "uint (m_smallest_received_sn s) \<le> uint (first_sn as)"
      by (simp_all add: accounted_def)
    then show ?thesis by (simp add: drops_def)
  qed
  have Ls: "m_buffer_len s = len"
    using run_buffer_len [OF r] by (simp add: new_ReorderBuffer_def)
  have drain: "\<exists>r s'. admit d s = Some (r, s') \<and> m_largest_received_sn s' = fst d \<and>
                   uint (drops s') + int (good_departures s') =
                     uint (m_largest_received_sn s') - uint (first_sn as)"
    if d: "beyond_window s (fst d) \<and> jump_fits s (fst d) \<and>
           len \<le> uint (fst d - highest_possible_sn s)" for d
  proof -
    obtain x y z where dd: "d = (x, y, z)" by (cases d) auto
    from d have b: "beyond_window s x" "jump_fits s x"
      "m_buffer_len s \<le> uint (x - highest_possible_sn s)"
      by (simp_all add: dd Ls)
    from b(1) have "m_tail_sn s \<noteq> 0" by (simp add: beyond_window_def)
    with inv have acc: "accounted (first_sn as) s"
      by (cases "first_sn as = 0") (simp_all add: unstarted_def)
    from admit_accounted [OF acc, of x y z] b obtain r s' where
      s': "admit (x, y, z) s = Some (r, s')" "accounted (first_sn as) s'" "m_tail_sn s' = x"
      "m_largest_received_sn s' = x" by blast
    from s'(2) have "uint (m_drops s') + int (good_departures s') + uint (first_sn as) = uint (m_tail_sn s')"
      by (simp add: accounted_def)
    then have "uint (drops s') + int (good_departures s') =
                     uint (m_largest_received_sn s') - uint (first_sn as)"
      by (simp add: s'(3,4) drops_def)
    with s'(1,4) show ?thesis by (auto simp: dd)
  qed
  from r le drain show ?thesis by blast
qed


lemma jumps_fit_prefix: "jumps_fit (as @ bs) s \<Longrightarrow> jumps_fit as s"
  by (induction as arbitrary: s) (auto split: option.splits)

text \<open>
  The hypotheses hold for a run that starts at sequence number 3000000000 on a buffer of 8
  slots, with the drain arrival 3000000100: the sum is 100.
\<close>

theorem departures_accounted_witness:
  "\<exists>s r s'. run [(3000000000, 1, 0), (3000000002, 2, 0)] (new_ReorderBuffer 8) = Some s \<and>
      jumps_fit [(3000000000, 1, 0), (3000000002, 2, 0)] (new_ReorderBuffer 8) \<and>
      uint (drops s) + int (good_departures s) \<le>
        uint (m_largest_received_sn s) - uint (m_smallest_received_sn s) + 1 \<and>
      beyond_window s 3000000100 \<and> jump_fits s 3000000100 \<and>
      8 \<le> uint (3000000100 - highest_possible_sn s) \<and>
      admit (3000000100, 3, 0) s = Some (r, s') \<and>
      uint (drops s') + int (good_departures s') = 100"
proof -
  let ?as = "[(3000000000, 1, 0), (3000000002, 2, 0)] :: arrival list"
  have h3: "jumps_fit ?as (new_ReorderBuffer 8)" by code_simp
  from departures_accounted [of 8 ?as, OF _ _ h3]
  obtain s where s: "run ?as (new_ReorderBuffer 8) = Some s"
    "uint (drops s) + int (good_departures s) \<le>
        uint (m_largest_received_sn s) - uint (m_smallest_received_sn s) + 1"
    and dr: "\<And>d. beyond_window s (fst d) \<and> jump_fits s (fst d) \<and>
                8 \<le> uint (fst d - highest_possible_sn s) \<Longrightarrow>
                (\<exists>r s'. admit d s = Some (r, s') \<and> m_largest_received_sn s' = fst d \<and>
                   uint (drops s') + int (good_departures s') =
                     uint (m_largest_received_sn s') - uint (first_sn ?as))"
    by auto
  have "beyond_window (the (run ?as (new_ReorderBuffer 8))) 3000000100"
    "jump_fits (the (run ?as (new_ReorderBuffer 8))) 3000000100"
    "8 \<le> uint (3000000100 - highest_possible_sn (the (run ?as (new_ReorderBuffer 8))))"
    by code_simp+
  with s(1) have far: "beyond_window s 3000000100" "jump_fits s 3000000100"
    "8 \<le> uint (3000000100 - highest_possible_sn s)" by simp_all
  from dr [of "(3000000100, 3, 0)"] far obtain r s' where
    "admit (3000000100, 3, 0) s = Some (r, s')" "m_largest_received_sn s' = 3000000100"
    "uint (drops s') + int (good_departures s') = uint (m_largest_received_sn s') - uint (first_sn ?as)"
    by auto
  with s far h3 show ?thesis by auto
qed

text \<open>
  The claim as stated fails. Twelve deliveries of sequence number 1 and then 9 give eleven
  duplicates and one good departure, 12 in all, in a range of 10. After the drain arrival
  100 that follows the single packet 1 the sum is 99, not 101. And an arrival \<open>2\<^sup>3\<^sup>2\<close>
  beyond \<^verbatim>\<open>highest_possible_sn()\<close> makes the 32-bit \<^verbatim>\<open>distance\<close> of \<^verbatim>\<open>spill\<close> 0: the
  assertion \<^verbatim>\<open>distance > 0\<close> fails and the call does not return.
\<close>

theorem duplicates_exceed_range:
  "map_option departure_sums
     (run ((1, 1, 0) # replicate 11 (1, 1, 0) @ [(9, 9, 0)]) (new_ReorderBuffer 8)) =
     Some (12, 10) \<and>
   map_option departure_sums (run [(1, 1, 0), (100, 100, 0)] (new_ReorderBuffer 8)) =
     Some (99, 101) \<and>
   run [(1, 1, 0), (4294967304, 4294967304, 0)] (new_ReorderBuffer 8) = None"
  by code_simp

subsection \<open>In-order arrivals and a single large gap\<close>

lemma nth_two_replicates: "0 < m \<Longrightarrow> (replicate j a @ replicate m b) ! j = b"
  by (simp add: nth_append)

lemma update_two_replicates:
  "0 < m \<Longrightarrow> (replicate j a @ replicate m b)[j := a] = replicate (Suc j) a @ replicate (m - 1) b"
  by (cases m) (simp_all add: list_update_append replicate_append_same)

lemma uint_of_nat_small: "k < 2147483648 \<Longrightarrow> uint (of_nat k :: u64) = int k"
  using uint_add_nat [of 0 k] by simp

lemma first_in_order:
  assumes "0 < L" "L < 2147483648" "t \<noteq> 0"
  shows "\<exists>s'. admit (t, f, p) (new_ReorderBuffer L) = Some (0, s') \<and> in_order_window L t 1 0 s'"
proof -
  let ?n = "new_ReorderBuffer L"
  have t0: "m_tail_sn ?n = 0" by (simp add: new_ReorderBuffer_def)
  let ?s' = "(bk t f p ?n)\<lparr>m_tail_sn := t, m_head_idx := m_tail_idx ?n,
               m_buffer := (m_buffer ?n)[nat (m_tail_idx ?n) := 1]\<rparr>"
  from admit_firstI [OF t0, of t f p] have ad: "admit (t, f, p) ?n = Some (0, ?s')" .
  have w: "wf ?s'" using wf_new [OF assms(1,2)] by (simp add: wf_def)
  have "0 < nat L" using assms(1) by simp
  from update_two_replicates [OF this, of 0 "1::u8" 0]
  have "(replicate (nat L) (0::u8))[0 := 1] = replicate 1 1 @ replicate (nat L - 1) 0" by simp
  then have "in_order_window L t 1 0 ?s'"
    using w by (simp add: in_order_window_def new_ReorderBuffer_def)
  with ad show ?thesis by blast
qed

lemma occupancy_in_order:
  assumes "in_order_window L t k d s" "1 \<le> k" "k \<le> nat L" "t \<noteq> 0"
  shows "occupancy s = int k"
proof -
  from assms(1) have f: "m_buffer_len s = L" "m_tail_idx s = 0" "m_head_idx s = int k - 1"
    "m_tail_sn s = t" "wf s"
    by (simp_all add: in_order_window_def)
  have "0 < L" using f(1,5) by (simp add: wf_def)
  have "(int k - 1) smod L = (int k - 1) mod L" using assms(2) \<open>0 < L\<close> by (intro smod_nonneg) simp_all
  also have "\<dots> = int k - 1" using assms(2,3) by simp
  finally show ?thesis using f assms(2,4) by (simp add: occupancy_def Let_def)
qed

lemma fill_step:
  assumes "in_order_window L t k d s" "1 \<le> k" "k < nat L" "t \<noteq> 0" "uint t < 2147483648"
  shows "\<exists>s'. admit (t + of_nat k, f, p) s = Some (0, s') \<and> in_order_window L t (Suc k) d s'"
proof -
  from assms(1) have fl: "m_buffer_len s = L" "m_tail_idx s = 0" "m_head_idx s = int k - 1"
    "m_tail_sn s = t" "m_buffer s = replicate k 1 @ replicate (nat L - k) 0"
    "m_drops s = d" "m_dups s = 0" and w: "wf s"
    by (simp_all add: in_order_window_def)
  have L: "0 < L" "L < 2147483648" using w fl(1) by (auto simp: wf_def)
  have kL: "int k < L" using assms(3) by simp
  let ?sn = "t + of_nat k"
  have usn: "uint ?sn = uint t + int k"
    using assms(5) kL L by (intro uint_add_nat) linarith
  have h: "uint (highest_possible_sn s) = uint t + L - 1"
    using uint_hsn [of s] L assms(5) fl by simp
  have tz: "m_tail_sn s \<noteq> 0" using assms(4) fl by simp
  have c1: "lowest_possible_sn s \<le> ?sn"
  proof -
    have "uint (lowest_possible_sn s) \<le> uint t" using lsn_le_tail [of s] fl by (simp add: word_le_def)
    with usn show ?thesis by (simp add: word_le_def)
  qed
  have c2: "?sn \<le> highest_possible_sn s" using usn h kL by (simp add: word_le_def)
  from admit_fitsI [OF tz c1 c2 idx_for_range [OF w]]
  have ad: "admit (?sn, f, p) s = Some (0, mark ?sn (bk ?sn f p s))" .
  have occ: "occupancy s = int k" using occupancy_in_order [OF assms(1,2) _ assms(4)] assms(3) by simp
  have idx: "idx_for s ?sn = int k"
  proof -
    have "(word_of_int (m_tail_idx s) + (?sn - m_tail_sn s) :: u64) = of_nat k" by (simp add: fl)
    moreover have "uint (of_nat k :: u64) = int k" using kL L by (intro uint_of_nat_small) linarith
    ultimately show ?thesis using idx_for_uint [OF w, of ?sn] kL fl by simp
  qed
  have lg: "m_tail_sn s + word_of_int (occupancy s) - 1 < ?sn"
  proof -
    have e: "m_tail_sn s + word_of_int (occupancy s) - 1 = t + word_of_int (int k - 1)"
      by (simp add: occ fl)
    have "0 \<le> uint t" by simp
    then have u: "uint (t + word_of_int (int k - 1)) = uint t + (int k - 1)"
      using assms(2,5) kL L by (intro uint_add_int) linarith+
    show ?thesis unfolding e word_less_alt u usn by simp
  qed
  have m: "mark ?sn (bk ?sn f p s) =
      (bump k (bk ?sn f p s))\<lparr>m_head_idx := int k\<rparr>"
    using lg idx by (simp add: mark_bump)
  have kk: "0 < nat L - k" using assms(3) by simp
  have buf: "(m_buffer s)[k := m_buffer s ! k + 1] = replicate (Suc k) 1 @ replicate (nat L - Suc k) 0"
    using nth_two_replicates [OF kk, of k "1::u8" 0] update_two_replicates [OF kk, of k "1::u8" 0]
    by (simp add: fl)
  have w': "wf (mark ?sn (bk ?sn f p s))" using w by (simp add: wf_mark)
  have "in_order_window L t (Suc k) d (mark ?sn (bk ?sn f p s))"
    using w' unfolding m using buf fl
    by (simp add: in_order_window_def bump_def)
  with ad show ?thesis by blast
qed

lemma spill_iter_one:
  assumes "wf s" "m_tail_idx s = int j" "j < nat (m_buffer_len s)"
    "m_buffer s = replicate j 0 @ replicate (nat (m_buffer_len s) - j) 1"
  shows "\<exists>s'. spill_iter (s, 0, 0) = (s', 0, 0) \<and> wf s' \<and>
           m_buffer s' = replicate (Suc j) 0 @ replicate (nat (m_buffer_len s) - Suc j) 1 \<and>
           m_tail_idx s' = int (Suc j) mod m_buffer_len s \<and>
           m_tail_sn s' = m_tail_sn s + 1 \<and> m_drops s' = m_drops s \<and>
           m_dups s' = m_dups s \<and> m_head_idx s' = m_head_idx s \<and>
           m_buffer_len s' = m_buffer_len s"
proof -
  let ?L = "m_buffer_len s"
  have L: "0 < ?L" using assms(1) by (simp add: wf_def)
  have m: "0 < nat ?L - j" using assms(3) by simp
  have one: "m_buffer s ! nat (m_tail_idx s) = 1"
    using nth_two_replicates [OF m, of j "0::u8" 1] by (simp add: assms(2,4))
  have upd: "(m_buffer s)[nat (m_tail_idx s) := 0] = replicate (Suc j) 0 @ replicate (nat ?L - Suc j) 1"
    using update_two_replicates [OF m, of j "0::u8" 1] by (simp add: assms(2,4))
  have sm: "(int j + 1) smod ?L = (int j + 1) mod ?L" using L by (intro smod_nonneg) simp_all
  obtain s' lb cb where it: "spill_iter (s, 0, 0) = (s', lb, cb)"
    by (cases "spill_iter (s, 0, 0)") auto
  from it one have s': "s' = s\<lparr>m_buffer := (m_buffer s)[nat (m_tail_idx s) := 0],
                   m_dups := m_dups s + word_of_int (uint (1::u8) - 1),
                   m_last_spilled_good_sn := m_tail_sn s,
                   good_departures := good_departures s + 1,
                   m_tail_idx := (m_tail_idx s + 1) smod m_buffer_len s,
                   m_tail_sn := m_tail_sn s + 1\<rparr>" "lb = 0" "cb = 0"
    by (auto simp: spill_iter_def Let_def)
  have w': "wf s'" using wf_spill_iter [OF assms(1) it] .
  show ?thesis using it w' upd sm by (simp add: s' assms(2) add.commute)
qed

lemma spill_loop_ones:
  assumes "wf s" "m_tail_idx s = int j mod m_buffer_len s" "j + n \<le> nat (m_buffer_len s)"
    "m_buffer s = replicate j 0 @ replicate (nat (m_buffer_len s) - j) 1"
  shows "\<exists>s'. spill_loop n (s, 0, 0) = (s', 0, 0) \<and> wf s' \<and>
           m_buffer s' = replicate (j + n) 0 @ replicate (nat (m_buffer_len s) - (j + n)) 1 \<and>
           m_tail_idx s' = int (j + n) mod m_buffer_len s \<and>
           m_tail_sn s' = m_tail_sn s + of_nat n \<and> m_drops s' = m_drops s \<and>
           m_dups s' = m_dups s \<and> m_head_idx s' = m_head_idx s \<and>
           m_buffer_len s' = m_buffer_len s"
  using assms
proof (induction n arbitrary: s j)
  case 0
  then show ?case by simp
next
  case (Suc n)
  have jl: "j < nat (m_buffer_len s)" using Suc.prems(3) by simp
  then have "int j mod m_buffer_len s = int j" by simp
  with Suc.prems(2) have ti: "m_tail_idx s = int j" by simp
  from spill_iter_one [OF Suc.prems(1) ti jl Suc.prems(4)] obtain s1 where
    it: "spill_iter (s, 0, 0) = (s1, 0, 0)" and w1: "wf s1"
    and b1: "m_buffer s1 = replicate (Suc j) 0 @ replicate (nat (m_buffer_len s) - Suc j) 1"
    and i1: "m_tail_idx s1 = int (Suc j) mod m_buffer_len s"
    and f1: "m_tail_sn s1 = m_tail_sn s + 1" "m_drops s1 = m_drops s"
      "m_dups s1 = m_dups s" "m_head_idx s1 = m_head_idx s"
    and L1: "m_buffer_len s1 = m_buffer_len s"
    by blast
  have p2: "m_tail_idx s1 = int (Suc j) mod m_buffer_len s1" using i1 L1 by simp
  have p3: "Suc j + n \<le> nat (m_buffer_len s1)" using Suc.prems(3) L1 by simp
  have p4: "m_buffer s1 = replicate (Suc j) 0 @ replicate (nat (m_buffer_len s1) - Suc j) 1"
    using b1 L1 by simp
  from Suc.IH [OF w1 p2 p3 p4] obtain s' where
    lp: "spill_loop n (s1, 0, 0) = (s', 0, 0)" and w': "wf s'"
    and b': "m_buffer s' = replicate (Suc j + n) 0 @ replicate (nat (m_buffer_len s1) - (Suc j + n)) 1"
    and i': "m_tail_idx s' = int (Suc j + n) mod m_buffer_len s1"
    and f': "m_tail_sn s' = m_tail_sn s1 + of_nat n" "m_drops s' = m_drops s1"
      "m_dups s' = m_dups s1" "m_head_idx s' = m_head_idx s1"
    and L': "m_buffer_len s' = m_buffer_len s1"
    by blast
  have e: "Suc j + n = j + Suc n" by simp
  have "spill_loop (Suc n) (s, 0, 0) = (s', 0, 0)" using it lp by simp
  moreover have "m_tail_sn s' = m_tail_sn s + of_nat (Suc n)"
    unfolding f'(1) f1(1) by simp
  ultimately show ?case
    using w' b' i' f'(2-) f1(2-) L' L1 unfolding e by auto
qed

lemma ones_as_window:
  "in_order_window L t (nat L) d s \<Longrightarrow>
   m_buffer s = replicate 0 0 @ replicate (nat (m_buffer_len s) - 0) 1"
  by (simp add: in_order_window_def)

lemma spike_on_full_window:
  assumes "in_order_window L t (nat L) d s" "2 \<le> L" "t \<noteq> 0" "uint t < 2147483648"
    "uint sn < 2147483648" "uint t + 2 * L - 1 \<le> uint sn" "uint d < 2147483648"
  shows "\<exists>s'. admit (sn, f, p) s = Some (uint sn - (uint t + L), s') \<and>
               in_order_window L sn 1 (d + word_of_int (uint sn - (uint t + L))) s'"
proof -
  from assms(1) have fl: "m_buffer_len s = L" "m_tail_idx s = 0" "m_head_idx s = int (nat L) - 1"
    "m_tail_sn s = t" "m_drops s = d" "m_dups s = 0" and w: "wf s"
    by (simp_all add: in_order_window_def)
  have L: "0 < L" "L < 2147483648" using w fl(1) by (auto simp: wf_def)
  let ?b = "bk sn f p s"
  let ?D = "uint sn - (uint t + L - 1)"
  have wb: "wf ?b" using w by simp
  have tz: "m_tail_sn s \<noteq> 0" using assms(3) fl by simp
  have h: "uint (highest_possible_sn s) = uint t + L - 1"
    using uint_hsn [of s] L assms(4) fl by simp
  have gt: "highest_possible_sn s < sn" using h assms(6) L by (simp add: word_less_alt)
  have c1: "lowest_possible_sn s \<le> sn"
  proof -
    have "uint (lowest_possible_sn s) \<le> uint t" using lsn_le_tail [of s] fl by (simp add: word_le_def)
    with assms(6) L show ?thesis by (simp add: word_le_def)
  qed
  have Tb: "uint (m_tail_sn ?b) < 2147483648" using assms(4) fl by simp
  have gtb: "highest_possible_sn ?b < sn" using gt by simp
  note d = spill_distance_small [OF wb Tb gtb assms(5)]
  from spill_total [of sn ?b] d obtain r s' where sp: "spill sn ?b = Some (r, s')" by auto
  have w': "wf s'" using wf_spill [OF wb sp] .
  from sp have "r = uint sn - (uint t + L) \<and>
               in_order_window L sn 1 (d + word_of_int (uint sn - (uint t + L))) s'"
  proof (cases rule: spill_cases)
    case (patch s2 lb cb d0)
    have d0: "d0 = ?D" using patch(1) d(1) fl by simp
    let ?s1 = "?b\<lparr>m_drops := m_drops ?b + word_of_int (d0 - 1)\<rparr>"
    have w1: "wf ?s1" using wb by (simp add: wf_def)
    have b1: "m_buffer ?s1 = replicate 0 0 @ replicate (nat (m_buffer_len ?s1) - 0) 1"
      using ones_as_window [OF assms(1)] by simp
    from spill_loop_ones [OF w1 _ _ b1, of "nat L"] fl
    obtain s2' where l2: "spill_loop (nat L) (?s1, 0, 0) = (s2', 0, 0)"
      "m_buffer s2' = replicate (nat L) 0" "m_tail_idx s2' = 0"
      "m_drops s2' = d + word_of_int (d0 - 1)" "m_dups s2' = 0" "m_buffer_len s2' = L"
      by auto
    from patch(4) l2(1) fl have e: "s2 = s2'" "lb = 0" "cb = 0" by simp_all
    have nL: "0 < nat L" using L by simp
    from update_two_replicates [OF nL, of 0 "1::u8" 0]
    have bu: "(replicate (nat L) (0::u8))[0 := 1] = replicate 1 1 @ replicate (nat L - 1) 0" by simp
    have "nat L \<noteq> 0" using nL by simp
    then have nz: "replicate (nat L) (0::u8) ! 0 = 0" by simp
    have "in_order_window L sn 1 (d + word_of_int (d0 - 1)) s'"
      using w' l2 bu nz unfolding patch(6) e
      by (simp add: in_order_window_def)
    moreover have "r = d0 - 1" using patch(2,7) e by simp
    moreover have "d0 - 1 = uint sn - (uint t + L)" using d0 by simp
    ultimately show ?thesis by simp
  next
    case (patch0 s2 lb cb d0)
    have "d0 = ?D" using patch0(1) d(1) fl by simp
    with patch0(5) assms(2,6) show ?thesis by simp
  next
    case (normal s2 lb cb d0)
    have "d0 = ?D" using normal(1) d(1) fl by simp
    with normal(3) assms(6) fl show ?thesis by simp
  qed
  moreover from admit_spillsI [OF tz c1 gt sp] have "admit (sn, f, p) s = Some (max 0 r, s')" .
  moreover have "0 \<le> uint sn - (uint t + L)" using assms(2,6) by linarith
  ultimately show ?thesis by (auto simp: max_def)
qed

lemma spill_one_on_full_window:
  assumes "in_order_window L t (nat L) d s" "2 \<le> L" "t \<noteq> 0" "uint t < 2147483648"
    "uint sn = uint t + L"
  shows "\<exists>s'. admit (sn, f, p) s = Some (0, s') \<and> m_drops s' = d \<and> m_dups s' = 0"
proof -
  from assms(1) have fl: "m_buffer_len s = L" "m_tail_idx s = 0" "m_head_idx s = int (nat L) - 1"
    "m_tail_sn s = t" "m_drops s = d" "m_dups s = 0" and w: "wf s"
    by (simp_all add: in_order_window_def)
  have L: "0 < L" "L < 2147483648" using w fl(1) by (auto simp: wf_def)
  let ?b = "bk sn f p s"
  have wb: "wf ?b" using w by simp
  have tz: "m_tail_sn s \<noteq> 0" using assms(3) fl by simp
  have h: "uint (highest_possible_sn s) = uint t + L - 1"
    using uint_hsn [of s] L assms(4) fl by simp
  have gt: "highest_possible_sn s < sn" using h assms(5) by (simp add: word_less_alt)
  have c1: "lowest_possible_sn s \<le> sn"
  proof -
    have "uint (lowest_possible_sn s) \<le> uint t" using lsn_le_tail [of s] fl by (simp add: word_le_def)
    with assms(5) L show ?thesis by (simp add: word_le_def)
  qed
  have Tb: "uint (m_tail_sn ?b) < 2147483648" using assms(4) fl by simp
  have gtb: "highest_possible_sn ?b < sn" using gt by simp
  have occ: "occupancy s = L"
    using occupancy_in_order [OF assms(1) _ _ assms(3)] L by simp
  have d1: "to_int32 (uint (sn - highest_possible_sn ?b)) = 1"
  proof -
    have "uint (highest_possible_sn s) < uint sn" using gt by (simp add: word_less_alt)
    then have "uint (sn - highest_possible_sn s) = uint sn - uint (highest_possible_sn s)"
      by (simp add: uint_sub_if')
    then have "uint (sn - highest_possible_sn s) = 1" using h assms(5) by simp
    then show ?thesis by (simp add: to_int32_id)
  qed
  from spill_total [of sn ?b] d1 obtain r s' where sp: "spill sn ?b = Some (r, s')" by auto
  from sp have "r = 0 \<and> m_drops s' = d \<and> m_dups s' = 0"
  proof (cases rule: spill_cases)
    case (patch s2 lb cb d0)
    with d1 show ?thesis by simp
  next
    case (patch0 s2 lb cb d0)
    with d1 fl assms(2) show ?thesis by simp
  next
    case (normal s2 lb cb d0)
    have d0: "d0 = 1" using normal(1) d1 by simp
    have n1: "nat (min (occupancy ?b) d0) = 1" using occ d0 assms(2) by simp
    have b1: "m_buffer ?b = replicate 0 0 @ replicate (nat (m_buffer_len ?b) - 0) 1"
      using ones_as_window [OF assms(1)] by simp
    have "(0::nat) + 1 \<le> nat (m_buffer_len ?b)" using L fl by simp
    from spill_loop_ones [OF wb _ this b1] fl
    obtain s2' where l2: "spill_loop 1 (?b, 0, 0) = (s2', 0, 0)"
      "m_drops s2' = d" "m_dups s2' = 0"
      by auto
    from normal(4) l2(1) n1 have e: "s2 = s2'" "lb = 0" "cb = 0" by simp_all
    show ?thesis using l2(2,3) normal(5,6) e by (simp add: mark_frame)
  qed
  moreover from admit_spillsI [OF tz c1 gt sp] have "admit (sn, f, p) s = Some (max 0 r, s')" .
  ultimately show ?thesis by auto
qed

lemma fill_run:
  assumes "in_order_window L t k d s" "1 \<le> k" "k + n \<le> nat L" "t \<noteq> 0" "uint t < 2147483648"
  shows "\<exists>tr s'. run_trace (in_order p (t + of_nat k) n) s = Some tr \<and>
                  run (in_order p (t + of_nat k) n) s = Some s' \<and>
                  observe tr = replicate n (0, d, 0) \<and> in_order_window L t (k + n) d s'"
  using assms(1,2,3)
proof (induction n arbitrary: k s)
  case 0
  then show ?case by (simp add: observe_def)
next
  case (Suc n)
  have kl: "k < nat L" using Suc.prems(3) by simp
  from fill_step [OF Suc.prems(1,2) kl assms(4,5), of "t + of_nat k" p]
  obtain s1 where s1: "admit (t + of_nat k, t + of_nat k, p) s = Some (0, s1)"
    "in_order_window L t (Suc k) d s1" by blast
  have "Suc k + n \<le> nat L" using Suc.prems(3) by simp
  from Suc.IH [OF s1(2) _ this] obtain tr s' where
    r: "run_trace (in_order p (t + of_nat (Suc k)) n) s1 = Some tr"
       "run (in_order p (t + of_nat (Suc k)) n) s1 = Some s'"
       "observe tr = replicate n (0, d, 0)" "in_order_window L t (Suc k + n) d s'"
    by auto
  have e: "t + of_nat k + 1 = t + of_nat (Suc k)" by simp
  have o: "drops s1 = d" "duplicates_rb s1 = 0"
    using s1(2) by (simp_all add: in_order_window_def drops_def duplicates_rb_def)
  have "run_trace (in_order p (t + of_nat k) (Suc n)) s = Some ((0, s1) # tr)"
    using s1(1) r(1) unfolding in_order.simps e by simp
  moreover have "run (in_order p (t + of_nat k) (Suc n)) s = Some s'"
    using s1(1) r(2) unfolding in_order.simps e by simp
  moreover have "observe ((0, s1) # tr) = replicate (Suc n) (0, d, 0)"
    using r(3) o by (simp add: observe_def)
  ultimately show ?case using r(4) by auto
qed

lemma run_trace_append:
  "run_trace as s = Some tr \<Longrightarrow> run as s = Some s' \<Longrightarrow>
   run_trace (as @ bs) s = map_option ((@) tr) (run_trace bs s')"
proof (induction as arbitrary: s tr)
  case Nil
  then show ?case by (simp add: option.map_ident)
next
  case (Cons a as)
  from Cons.prems obtain r s1 tr1 where a: "admit a s = Some (r, s1)"
    "run_trace as s1 = Some tr1" "tr = (r, s1) # tr1" "run as s1 = Some s'"
    by (auto split: option.splits)
  from Cons.IH [OF a(2,4)] a(1,3) show ?case
    by (cases "run_trace bs s'") simp_all
qed

lemma in_order_snoc:
  "in_order p a (Suc n) = in_order p a n @ [(a + of_nat n, a + of_nat n, p)]"
proof (induction n arbitrary: a)
  case 0
  show ?case by simp
next
  case (Suc n)
  have "in_order p a (Suc (Suc n)) = (a, a, p) # in_order p (a + 1) (Suc n)" by simp
  also have "\<dots> = (a, a, p) # in_order p (a + 1) n @ [(a + 1 + of_nat n, a + 1 + of_nat n, p)]"
    by (simp only: Suc.IH)
  finally show ?case by (simp add: ac_simps)
qed

text \<open>
  Claim C1. On a buffer of capacity 1024 and a single port \<open>p\<close>, with flow sequence numbers
  equal to the stream sequence numbers: the arrivals 1 to 1024 each return 0 with no drops;
  the arrival 3025 returns the stream burst length 2000 and leaves 2000 drops; the
  following 1024 in-order arrivals, 3026 to 4049, each return 0 and leave 2000 drops. (The
  three numbers of an entry are the returned burst length, the drops and the duplicates.)
\<close>

theorem single_large_gap:
  "map_option observe
     (run_trace (in_order p 1 1024 @ [(3025, 3025, p)] @ in_order p 3026 1024)
        (new_ReorderBuffer 1024)) =
   Some (replicate 1024 (0, 0, 0) @ [(2000, 2000, 0)] @ replicate 1024 (0, 2000, 0))"
proof -
  let ?new = "new_ReorderBuffer 1024"
  have n: "(1024::nat) = Suc 1023" by simp
  \<comment> \<open>the first packet, then 2 to 1024\<close>
  from first_in_order [of 1024 1 1 p] obtain s1 where
    s1: "admit (1, 1, p) ?new = Some (0, s1)" "in_order_window 1024 1 1 0 s1" by auto
  from fill_run [OF s1(2), of 1023 p] obtain tr1 s2 where
    f1: "run_trace (in_order p 2 1023) s1 = Some tr1" "run (in_order p 2 1023) s1 = Some s2"
        "observe tr1 = replicate 1023 (0, 0, 0)" "in_order_window 1024 1 1024 0 s2"
    by auto
  have o1: "drops s1 = 0" "duplicates_rb s1 = 0"
    using s1(2) by (simp_all add: in_order_window_def drops_def duplicates_rb_def)
  have p1: "run_trace (in_order p 1 1024) ?new = Some ((0, s1) # tr1)"
    "run (in_order p 1 1024) ?new = Some s2"
    using s1(1) f1(1,2) unfolding n in_order.simps by simp_all
  \<comment> \<open>the arrival of 3025\<close>
  have full: "in_order_window 1024 1 (nat 1024) 0 s2" using f1(4) by simp
  from spike_on_full_window [OF full, of 3025 3025 p] obtain s3 where
    s3: "admit (3025, 3025, p) s2 = Some (2000, s3)" "in_order_window 1024 3025 1 2000 s3"
    by auto
  have o3: "drops s3 = 2000" "duplicates_rb s3 = 0"
    using s3(2) by (simp_all add: in_order_window_def drops_def duplicates_rb_def)
  \<comment> \<open>3026 to 4048 fill the window, 4049 spills one slot\<close>
  from fill_run [OF s3(2), of 1023 p] obtain tr3 s4 where
    f3: "run_trace (in_order p 3026 1023) s3 = Some tr3" "run (in_order p 3026 1023) s3 = Some s4"
        "observe tr3 = replicate 1023 (0, 2000, 0)" "in_order_window 1024 3025 1024 2000 s4"
    by auto
  have full4: "in_order_window 1024 3025 (nat 1024) 2000 s4" using f3(4) by simp
  from spill_one_on_full_window [OF full4, of 4049 4049 p] obtain s5 where
    s5: "admit (4049, 4049, p) s4 = Some (0, s5)" "m_drops s5 = 2000" "m_dups s5 = 0"
    by auto
  have o5: "drops s5 = 2000" "duplicates_rb s5 = 0"
    using s5(2,3) by (simp_all add: drops_def duplicates_rb_def)
  have last: "in_order p 3026 1024 = in_order p 3026 1023 @ [(4049, 4049, p)]"
    unfolding n in_order_snoc by simp
  have p3: "run_trace (in_order p 3026 1024) s3 = Some (tr3 @ [(0, s5)])"
    unfolding last using run_trace_append [OF f3(1,2), of "[(4049, 4049, p)]"] s5(1) by simp
  have p2: "run_trace ([(3025, 3025, p)] @ in_order p 3026 1024) s2 = Some ((2000, s3) # tr3 @ [(0, s5)])"
    using s3(1) p3 by simp
  have "run_trace (in_order p 1 1024 @ [(3025, 3025, p)] @ in_order p 3026 1024) ?new =
          Some (((0, s1) # tr1) @ (2000, s3) # tr3 @ [(0, s5)])"
    using run_trace_append [OF p1, of "[(3025, 3025, p)] @ in_order p 3026 1024"] p2 by simp
  moreover have "observe (((0, s1) # tr1) @ (2000, s3) # tr3 @ [(0, s5)]) =
      ((0, 0, 0) # replicate 1023 (0, 0, 0)) @ [(2000, 2000, 0)] @
      (replicate 1023 (0, 2000, 0) @ [(0, 2000, 0)])"
    using f1(3) f3(3) o1 o3 o5 by (simp add: observe_def)
  moreover have "(0, 0, 0) # replicate 1023 (0, 0, 0) = replicate 1024 ((0, 0, 0) :: int \<times> u64 \<times> u64)"
    by (simp only: n replicate.simps)
  moreover have "replicate 1023 (0, 2000, 0) @ [(0, 2000, 0)] = replicate 1024 ((0, 2000, 0) :: int \<times> u64 \<times> u64)"
    by (simp only: n replicate.simps replicate_append_same)
  ultimately show ?thesis by simp
qed

end
